theory Spec2Isabelle
  imports Complex_Main
begin

section \<open>Pixel Postman: the simulation core of \<^verbatim>\<open>src/components/GameLoop.tsx\<close>\<close>

text \<open>
  The embedding follows the later variant of the game loop
  (\<^verbatim>\<open>src/components/GameLoop.tsx\<close>, with the constants of the second block of
  \<^verbatim>\<open>src/constants.ts\<close>: \<^verbatim>\<open>MAP_WIDTH = 50\<close>, \<^verbatim>\<open>BOOST_SPEED\<close>,
  \<^verbatim>\<open>MAX_BOOST_CHARGE\<close>). The delivery block of the earlier variant
  (\<^verbatim>\<open>src/unnamed/part_000\<close>) is embedded separately at the end of the definitions.

  Conventions.
  \<^item> A JavaScript \<^verbatim>\<open>number\<close> that holds a coordinate or a time is a \<^typ>\<open>real\<close>
    (rounding of doubles and \<^verbatim>\<open>NaN\<close> are not modelled); tile indices, score and
    health are \<^typ>\<open>int\<close>.
  \<^item> \<^verbatim>\<open>Math.random()\<close> is a stream \<open>rnd :: nat \<Rightarrow> real\<close> read at the index
    \<open>rngIndex\<close> of the state; every modelled call advances the index by one.
  \<^item> \<^verbatim>\<open>performance.now()\<close> is the parameter \<open>now\<close> of a tick (milliseconds).
  \<^item> A call either returns, throws a \<^verbatim>\<open>TypeError\<close> (reading an element of a
    missing row of the map, or a field of \<^verbatim>\<open>undefined\<close>), or runs forever.
  \<^item> Objects are identified by their index in the array that holds them.
  \<^item> Rendering state (particles, text popups, projectiles, camera, entity ids and
    colours) is left out, together with the random draws that only feed it; calls
    to the audio collaborator are recorded in \<open>audioLog\<close>.
\<close>

subsection \<open>Constants (\<^verbatim>\<open>src/constants.ts\<close>)\<close>

abbreviation (input) TILE_SIZE :: real where "TILE_SIZE \<equiv> 32"
abbreviation (input) MAP_WIDTH :: int where "MAP_WIDTH \<equiv> 50"
abbreviation (input) MAP_HEIGHT :: int where "MAP_HEIGHT \<equiv> 30"
abbreviation (input) INITIAL_TIME :: real where "INITIAL_TIME \<equiv> 150"
abbreviation (input) PLAYER_SPEED :: real where "PLAYER_SPEED \<equiv> 4"
abbreviation (input) BOOST_SPEED :: real where "BOOST_SPEED \<equiv> 8"
abbreviation (input) CAR_SPEED :: real where "CAR_SPEED \<equiv> 7 / 2"
abbreviation (input) MAX_BOOST_CHARGE :: int where "MAX_BOOST_CHARGE \<equiv> 4"
abbreviation (input) MAP_PIXEL_WIDTH :: real where "MAP_PIXEL_WIDTH \<equiv> 50 * 32"
abbreviation (input) MAP_PIXEL_HEIGHT :: real where "MAP_PIXEL_HEIGHT \<equiv> 30 * 32"

subsection \<open>Data model (\<^verbatim>\<open>types.ts\<close>)\<close>

datatype 'a outcome = Returns 'a | Throws | Diverges

datatype TileType = ROAD | GRASS | HOUSE | GARDEN | DRIVEWAY | FOOTPATH | WATER

datatype CarState = PARKED | MERGING | DRIVING | RETURNING

datatype Direction = DirUp | DirDown | DirLeft | DirRight

datatype PowerUpType = COFFEE | TRAFFIC_LIGHT | CLOCK | RAINCOAT

datatype AudioEvent = MoveTick | Dash | Splash | Delivery | Hit | Powerup

record Vector2 =
  vx :: real
  vy :: real

record Entity =
  pos :: Vector2
  esize :: Vector2

type_synonym TileMap = "TileType list list"

subsection \<open>Helpers\<close>

text \<open>\<^verbatim>\<open>checkCollision\<close>: overlap of two axis-aligned boxes.\<close>

definition checkCollision :: "'a Entity_scheme \<Rightarrow> 'b Entity_scheme \<Rightarrow> bool" where
  "checkCollision rect1 rect2 \<longleftrightarrow>
     vx (pos rect1) < vx (pos rect2) + vx (esize rect2) \<and>
     vx (pos rect1) + vx (esize rect1) > vx (pos rect2) \<and>
     vy (pos rect1) < vy (pos rect2) + vy (esize rect2) \<and>
     vy (pos rect1) + vy (esize rect1) > vy (pos rect2)"

definition getDistance :: "Vector2 \<Rightarrow> Vector2 \<Rightarrow> real" where
  "getDistance p1 p2 = sqrt ((vx p2 - vx p1)\<^sup>2 + (vy p2 - vy p1)\<^sup>2)"

text \<open>
  \<^verbatim>\<open>map[ty][tx]\<close>: a missing row is \<^verbatim>\<open>undefined\<close> and reading its element throws;
  a missing element of an existing row is \<^verbatim>\<open>undefined\<close>, here \<open>None\<close>.
\<close>

definition tileAt :: "TileMap \<Rightarrow> int \<Rightarrow> int \<Rightarrow> TileType option outcome" where
  "tileAt m ty tx =
     (if ty < 0 \<or> int (length m) \<le> ty then Throws
      else let row = m ! nat ty in
        Returns (if tx < 0 \<or> int (length row) \<le> tx then None else Some (row ! nat tx)))"

text \<open>The four corner points tested by \<^verbatim>\<open>isWalkable\<close>, in the order of the source.\<close>

definition corners :: "Vector2 \<Rightarrow> Vector2 \<Rightarrow> Vector2 list" where
  "corners p sz =
     [\<lparr>vx = vx p, vy = vy p\<rparr>,
      \<lparr>vx = vx p + vx sz - 1, vy = vy p\<rparr>,
      \<lparr>vx = vx p, vy = vy p + vy sz - 1\<rparr>,
      \<lparr>vx = vx p + vx sz - 1, vy = vy p + vy sz - 1\<rparr>]"

fun walkablePoints :: "Vector2 list \<Rightarrow> TileMap \<Rightarrow> bool outcome" where
  "walkablePoints [] m = Returns True"
| "walkablePoints (p # ps) m =
     (let tx = \<lfloor>vx p / TILE_SIZE\<rfloor>; ty = \<lfloor>vy p / TILE_SIZE\<rfloor> in
      if tx < 0 \<or> tx \<ge> MAP_WIDTH \<or> ty < 0 \<or> ty \<ge> MAP_HEIGHT then Returns False
      else (case tileAt m ty tx of
              Throws \<Rightarrow> Throws
            | Diverges \<Rightarrow> Diverges
            | Returns tile \<Rightarrow>
                if tile \<noteq> Some ROAD then Returns False else walkablePoints ps m))"

definition isWalkable :: "Vector2 \<Rightarrow> Vector2 \<Rightarrow> TileMap \<Rightarrow> bool outcome" where
  "isWalkable p sz m = walkablePoints (corners p sz) m"

text \<open>\<^verbatim>\<open>Array.prototype.findIndex\<close>: the first index that satisfies the test, or \<open>-1\<close>.\<close>

fun findIndex :: "('a \<Rightarrow> bool) \<Rightarrow> 'a list \<Rightarrow> int" where
  "findIndex P [] = -1"
| "findIndex P (x # xs) =
     (if P x then 0 else (let i = findIndex P xs in if i = -1 then -1 else i + 1))"

record Flow =
  fx :: int
  fy :: int
  fd :: Direction

definition getTrafficFlow :: "int \<Rightarrow> int \<Rightarrow> int list \<Rightarrow> int list \<Rightarrow> Flow list" where
  "getTrafficFlow tx ty vRoads hRoads =
     (let vIndex = findIndex (\<lambda>v. tx = v \<or> tx = v + 1) vRoads;
          flowsV = (if vIndex \<noteq> -1
                    then (if vIndex mod 2 = 0 then [\<lparr>fx = 0, fy = 1, fd = DirDown\<rparr>]
                          else [\<lparr>fx = 0, fy = -1, fd = DirUp\<rparr>])
                    else []);
          hIndex = findIndex (\<lambda>h. ty = h \<or> ty = h + 1) hRoads;
          flowsH = (if hIndex \<noteq> -1
                    then (if hIndex mod 2 = 0 then [\<lparr>fx = -1, fy = 0, fd = DirLeft\<rparr>]
                          else [\<lparr>fx = 1, fy = 0, fd = DirRight\<rparr>])
                    else [])
      in flowsV @ flowsH)"

text \<open>
  \<^verbatim>\<open>getRandomRoadPosition\<close>: at most 1000 attempts, two draws each, then the fallback
  \<open>(64, 64)\<close>. The result carries the index of the next unread draw.
\<close>

function getRandomRoadPositionLoop ::
  "nat \<Rightarrow> TileMap \<Rightarrow> Vector2 \<Rightarrow> 'a Entity_scheme list \<Rightarrow> (nat \<Rightarrow> real) \<Rightarrow> nat
     \<Rightarrow> (Vector2 \<times> nat) outcome" where
  "getRandomRoadPositionLoop attempts m entitySize avoidEntities rnd k =
     (if attempts < 1000 then
        (let tx = \<lfloor>rnd k * real_of_int MAP_WIDTH\<rfloor>;
             ty = \<lfloor>rnd (k + 1) * real_of_int MAP_HEIGHT\<rfloor> in
         case tileAt m ty tx of
           Throws \<Rightarrow> Throws
         | Diverges \<Rightarrow> Diverges
         | Returns tile \<Rightarrow>
             if tile = Some ROAD then
               (let p = \<lparr>vx = real_of_int tx * TILE_SIZE + 4, vy = real_of_int ty * TILE_SIZE + 4\<rparr> in
                case isWalkable p entitySize m of
                  Throws \<Rightarrow> Throws
                | Diverges \<Rightarrow> Diverges
                | Returns w \<Rightarrow>
                    if w \<and> \<not> list_ex (checkCollision \<lparr>pos = p, esize = entitySize\<rparr>) avoidEntities
                    then Returns (p, k + 2)
                    else getRandomRoadPositionLoop (attempts + 1) m entitySize avoidEntities rnd (k + 2))
             else getRandomRoadPositionLoop (attempts + 1) m entitySize avoidEntities rnd (k + 2))
      else Returns (\<lparr>vx = 64, vy = 64\<rparr>, k))"
  by pat_completeness auto
termination
  by (relation "measure (\<lambda>(attempts, m, entitySize, avoidEntities, rnd, k). 1000 - attempts)") auto

definition getRandomRoadPosition ::
  "TileMap \<Rightarrow> Vector2 \<Rightarrow> 'a Entity_scheme list \<Rightarrow> (nat \<Rightarrow> real) \<Rightarrow> nat \<Rightarrow> (Vector2 \<times> nat) outcome" where
  "getRandomRoadPosition m entitySize avoidEntities rnd k =
     getRandomRoadPositionLoop 0 m entitySize avoidEntities rnd k"


subsection \<open>Entities and round state\<close>

record Moving = Entity +
  velocity :: Vector2
  speed :: real
  direction :: Direction

record Player = Moving +
  isBoosting :: bool
  boostTimer :: real
  boostCharge :: int
  boostUnlocked :: bool
  stunned :: real
  puddleImmunity :: real
  health :: int
  maxHealth :: int
  invulnerabilityTimer :: real

record House = Entity +
  isTarget :: bool
  doorPos :: Vector2
  facing :: Direction
  drivewayPos :: Vector2

record Car = Moving +
  frozenTimer :: real
  state :: CarState
  homePos :: Vector2

record PowerUp = Entity +
  kind :: "PowerUpType option"
  life :: "real option"

record Input =
  ix :: real
  iy :: real
  dash :: bool

text \<open>
  \<open>GameState\<close> with the refs of the component that the tick reads and writes
  (\<open>gameOverReason\<close>, \<open>prevDash\<close>, \<open>lastMoveSoundTime\<close>), the position in the
  random stream and the log of audio calls.
\<close>

record GameState =
  isPlaying :: bool
  isGameOver :: bool
  score :: int
  timer :: real
  deliveries :: int
  lastDeliveryTime :: real
  trafficPauseTimer :: real
  mapGrid :: TileMap
  vRoads :: "int list"
  hRoads :: "int list"
  player :: Player
  houses :: "House list"
  cars :: "Car list"
  puddles :: "Entity list"
  powerups :: "PowerUp list"
  staticObjects :: "Entity list"
  gameOverReason :: string
  prevDash :: bool
  lastMoveSoundTime :: real
  rngIndex :: nat
  audioLog :: "AudioEvent list"

definition obind :: "'a outcome \<Rightarrow> ('a \<Rightarrow> 'b outcome) \<Rightarrow> 'b outcome" where
  "obind r f = (case r of Returns a \<Rightarrow> f a | Throws \<Rightarrow> Throws | Diverges \<Rightarrow> Diverges)"

text \<open>\<^verbatim>\<open>map[ty][tx] === t\<close>.\<close>

definition tileIs :: "TileMap \<Rightarrow> int \<Rightarrow> int \<Rightarrow> TileType \<Rightarrow> bool outcome" where
  "tileIs m ty tx t = obind (tileAt m ty tx) (\<lambda>v. Returns (v = Some t))"

subsection \<open>\<^verbatim>\<open>activateCar\<close>\<close>

definition mergeDirection :: "TileMap \<Rightarrow> int \<Rightarrow> int \<Rightarrow> Direction \<Rightarrow> Direction outcome" where
  "mergeDirection m tileX tileY d =
     obind (if tileY + 1 < MAP_HEIGHT then tileIs m (tileY + 1) tileX ROAD else Returns False)
       (\<lambda>a. if a then Returns DirDown else
     obind (if tileY - 1 \<ge> 0 then tileIs m (tileY - 1) tileX ROAD else Returns False)
       (\<lambda>b. if b then Returns DirUp else
     obind (if tileX + 1 < MAP_WIDTH then tileIs m tileY (tileX + 1) ROAD else Returns False)
       (\<lambda>c. if c then Returns DirRight else
     obind (if tileX - 1 \<ge> 0 then tileIs m tileY (tileX - 1) ROAD else Returns False)
       (\<lambda>e. if e then Returns DirLeft else Returns d))))"

definition activateCar :: "(nat \<Rightarrow> real) \<Rightarrow> GameState \<Rightarrow> GameState outcome" where
  "activateCar rnd s =
     (let parkedCars = filter (\<lambda>i. state (cars s ! i) = PARKED) [0 ..< length (cars s)] in
      if length parkedCars > 0 then
        (let j = \<lfloor>rnd (rngIndex s) * real (length parkedCars)\<rfloor>;
             s1 = s\<lparr>rngIndex := rngIndex s + 1\<rparr> in
         if j < 0 \<or> int (length parkedCars) \<le> j then Throws
         else
           (let i = parkedCars ! nat j;
                car = cars s1 ! i;
                car1 = car\<lparr>state := MERGING\<rparr>;
                car2 = (if trafficPauseTimer s1 > 0
                        then car1\<lparr>frozenTimer := trafficPauseTimer s1\<rparr> else car1);
                tileX = \<lfloor>vx (pos car2) / TILE_SIZE\<rfloor>;
                tileY = \<lfloor>vy (pos car2) / TILE_SIZE\<rfloor> in
            obind (mergeDirection (mapGrid s1) tileX tileY (direction car2))
              (\<lambda>d. Returns (s1\<lparr>cars := (cars s1)[i := car2\<lparr>direction := d\<rparr>]\<rparr>))))
      else Returns s)"

subsection \<open>The phases of \<^verbatim>\<open>update\<close>\<close>

text \<open>Lines 705--714: the activation roll.\<close>

definition spawnPhase :: "(nat \<Rightarrow> real) \<Rightarrow> GameState \<Rightarrow> GameState outcome" where
  "spawnPhase rnd s =
     (let spawnChance = (if timer s \<le> 60
                         then 1 / 100 + (1 - max 0 (timer s) / 60) * (4 / 100)
                         else 1 / 100);
          r = rnd (rngIndex s);
          s1 = s\<lparr>rngIndex := rngIndex s + 1\<rparr> in
      if r < spawnChance then activateCar rnd s1 else Returns s1)"

text \<open>Lines 716--731: the power-up roll.\<close>

definition powerupSpawn :: "(nat \<Rightarrow> real) \<Rightarrow> GameState \<Rightarrow> GameState outcome" where
  "powerupSpawn rnd s =
     (let r = rnd (rngIndex s);
          s1 = s\<lparr>rngIndex := rngIndex s + 1\<rparr> in
      if r < 5 / 1000 \<and> length (powerups s1) < 5 then
        (let types = [COFFEE, TRAFFIC_LIGHT, CLOCK, RAINCOAT];
             i = \<lfloor>rnd (rngIndex s1) * real (length types)\<rfloor>;
             knd = (if 0 \<le> i \<and> i < int (length types) then Some (types ! nat i) else None) in
         obind (getRandomRoadPosition (mapGrid s1) \<lparr>vx = 16, vy = 16\<rparr> (puddles s1) rnd
                  (rngIndex s1 + 1))
           (\<lambda>(p, k). Returns (s1\<lparr>powerups := powerups s1 @
                                  [\<lparr>pos = p, esize = \<lparr>vx = 16, vy = 16\<rparr>,
                                    kind = knd, life = Some 10\<rparr>],
                                rngIndex := k\<rparr>)))
      else Returns s1)"

text \<open>
  The three damage blocks of the source (puddle, merging car, driving car) share their
  body: one heart less, two seconds of invulnerability, a sound, and the end of the
  round when no heart is left. The flag tells the caller to return from \<^verbatim>\<open>update\<close>.
\<close>

definition takeHit :: "AudioEvent \<Rightarrow> GameState \<Rightarrow> GameState \<times> bool" where
  "takeHit ev s =
     (let p = (player s)\<lparr>health := health (player s) - 1, invulnerabilityTimer := 2\<rparr>;
          s1 = s\<lparr>player := p, audioLog := audioLog s @ [ev]\<rparr> in
      if health p \<le> 0
      then (s1\<lparr>isGameOver := True, gameOverReason := ''HEALTH''\<rparr>, True)
      else (s1, False))"

text \<open>Lines 740--780: speed, facing, boost.\<close>

definition desiredMove :: "Input \<Rightarrow> Player \<Rightarrow> real \<times> real" where
  "desiredMove inp p =
     (let currentSpeed = (if isBoosting p then BOOST_SPEED else speed p) in
      (ix inp * currentSpeed, iy inp * currentSpeed))"

definition moveSound :: "real \<Rightarrow> Input \<Rightarrow> GameState \<Rightarrow> GameState" where
  "moveSound now inp s =
     (let (desiredX, desiredY) = desiredMove inp (player s) in
      if (\<bar>desiredX\<bar> > 1 / 10 \<or> \<bar>desiredY\<bar> > 1 / 10) \<and> now - lastMoveSoundTime s > 200
      then s\<lparr>audioLog := audioLog s @ [MoveTick], lastMoveSoundTime := now\<rparr> else s)"

definition facePlayer :: "Input \<Rightarrow> Player \<Rightarrow> Player" where
  "facePlayer inp p =
     (let p1 = (if \<bar>ix inp\<bar> > 1 / 10
                then p\<lparr>direction := (if ix inp > 0 then DirRight else DirLeft)\<rparr> else p)
      in if \<bar>iy inp\<bar> > 1 / 10
         then p1\<lparr>direction := (if iy inp > 0 then DirDown else DirUp)\<rparr> else p1)"

definition boostStart :: "Input \<Rightarrow> GameState \<Rightarrow> GameState" where
  "boostStart inp s =
     (let isDashPressed = dash inp;
          isDashTriggered = (isDashPressed \<and> \<not> prevDash s);
          s1 = s\<lparr>prevDash := isDashPressed\<rparr>;
          p = player s1 in
      if isDashTriggered \<and> boostCharge p \<ge> 1 \<and> \<not> isBoosting p
      then s1\<lparr>player := p\<lparr>boostCharge := boostCharge p - 1, isBoosting := True,
                              boostTimer := 1 / 2\<rparr>,
              audioLog := audioLog s1 @ [Dash]\<rparr>
      else s1)"

definition boostTick :: "real \<Rightarrow> Player \<Rightarrow> Player" where
  "boostTick dt p =
     (if isBoosting p then
        (let p1 = p\<lparr>boostTimer := boostTimer p - dt\<rparr> in
         if boostTimer p1 \<le> 0 then p1\<lparr>isBoosting := False\<rparr> else p1)
      else p)"

definition playerControl :: "real \<Rightarrow> real \<Rightarrow> Input \<Rightarrow> GameState \<Rightarrow> GameState" where
  "playerControl dt now inp s =
     (let s1 = moveSound now inp s;
          s2 = s1\<lparr>player := facePlayer inp (player s1)\<rparr>;
          s3 = boostStart inp s2
      in s3\<lparr>player := boostTick dt (player s3)\<rparr>)"

text \<open>Lines 782--795: the movement resolver.\<close>

definition checkMove :: "GameState \<Rightarrow> Vector2 \<Rightarrow> bool outcome" where
  "checkMove s nextPos =
     obind (isWalkable nextPos (esize (player s)) (mapGrid s))
       (\<lambda>w. if \<not> w then Returns False
            else Returns (\<not> list_ex (checkCollision \<lparr>pos = nextPos, esize = esize (player s)\<rparr>)
                                     (staticObjects s)))"

definition movePlayer :: "real \<Rightarrow> real \<Rightarrow> GameState \<Rightarrow> GameState outcome" where
  "movePlayer desiredX desiredY s =
     (let nextPos = \<lparr>vx = vx (pos (player s)) + desiredX, vy = vy (pos (player s))\<rparr> in
      obind (checkMove s nextPos)
        (\<lambda>okX.
           let s1 = (if okX then s\<lparr>player := (player s)\<lparr>pos := (pos (player s))\<lparr>vx := vx nextPos\<rparr>\<rparr>\<rparr>
                     else s);
               nextPos2 = \<lparr>vx = vx (pos (player s1)), vy = vy (pos (player s1)) + desiredY\<rparr> in
           obind (checkMove s1 nextPos2)
             (\<lambda>okY. Returns
                (if okY then s1\<lparr>player := (player s1)\<lparr>pos := (pos (player s1))\<lparr>vy := vy nextPos2\<rparr>\<rparr>\<rparr>
                 else s1))))"

text \<open>Lines 797--818: the puddle hazard.\<close>

definition puddleCheck :: "GameState \<Rightarrow> GameState \<times> bool" where
  "puddleCheck s =
     (let inPuddle = list_ex (checkCollision (player s)) (puddles s) in
      if inPuddle \<and> \<not> isBoosting (player s) \<and> puddleImmunity (player s) \<le> 0
         \<and> invulnerabilityTimer (player s) \<le> 0
      then takeHit Splash s else (s, False))"

text \<open>Lines 736--819.\<close>

definition playerPhase :: "real \<Rightarrow> real \<Rightarrow> Input \<Rightarrow> GameState \<Rightarrow> (GameState \<times> bool) outcome" where
  "playerPhase dt now inp s =
     (if stunned (player s) > 0
      then Returns (s\<lparr>player := (player s)\<lparr>stunned := stunned (player s) - dt,
                                           velocity := \<lparr>vx = 0, vy = 0\<rparr>\<rparr>\<rparr>, False)
      else
        (let (desiredX, desiredY) = desiredMove inp (player s) in
         obind (movePlayer desiredX desiredY (playerControl dt now inp s))
           (\<lambda>s1. Returns (puddleCheck s1))))"

text \<open>Lines 821--825.\<close>

definition timersPhase :: "real \<Rightarrow> GameState \<Rightarrow> GameState" where
  "timersPhase dt s =
     (let p = player s;
          p1 = (if invulnerabilityTimer p > 0
                then p\<lparr>invulnerabilityTimer := invulnerabilityTimer p - dt\<rparr> else p);
          p2 = (if puddleImmunity p1 > 0
                then p1\<lparr>puddleImmunity := puddleImmunity p1 - dt\<rparr> else p1)
      in s\<lparr>player := p2\<rparr>)"


subsection \<open>Delivery (lines 827--867)\<close>

text \<open>
  The redraw loop \<^verbatim>\<open>while (nextHouse === targetHouse)\<close>: it reads draws until one
  selects another index than the target's, and runs forever when none does.
\<close>

partial_function (option) pickNextHouse ::
  "(nat \<Rightarrow> real) \<Rightarrow> nat \<Rightarrow> int \<Rightarrow> nat \<Rightarrow> (int \<times> nat) option" where
  "pickNextHouse rnd n t k =
     (if \<lfloor>rnd k * real n\<rfloor> = t then pickNextHouse rnd n t (k + 1)
      else Some (\<lfloor>rnd k * real n\<rfloor>, k + 1))"

definition deliveryLogic :: "real \<Rightarrow> (nat \<Rightarrow> real) \<Rightarrow> GameState \<Rightarrow> GameState outcome" where
  "deliveryLogic now rnd s =
     (let t = findIndex isTarget (houses s) in
      if t = -1 then Returns s
      else
        (let targetHouse = houses s ! nat t;
             dist = getDistance (pos (player s)) (doorPos targetHouse) in
         if dist < 80 then
           (let s1 = s\<lparr>score := score s + 1, deliveries := deliveries s + 1,
                       audioLog := audioLog s @ [Delivery]\<rparr>;
                timeSinceLast = now / 1000 - lastDeliveryTime s1;
                bonusTime = (if timeSinceLast < 5 then 2 + 2 else 2);
                s2 = s1\<lparr>timer := min (timer s1 + bonusTime) INITIAL_TIME,
                        lastDeliveryTime := now / 1000\<rparr>;
                hs = (houses s2)[nat t := targetHouse\<lparr>isTarget := False\<rparr>] in
            case pickNextHouse rnd (length hs) t (rngIndex s2) of
              None \<Rightarrow> Diverges
            | Some (j, k) \<Rightarrow>
                if j < 0 \<or> int (length hs) \<le> j then Throws
                else activateCar rnd
                       (s2\<lparr>houses := hs[nat j := (hs ! nat j)\<lparr>isTarget := True\<rparr>],
                           rngIndex := k\<rparr>))
         else Returns s))"

subsection \<open>Traffic (lines 890--1079)\<close>

definition stepPos :: "Direction \<Rightarrow> real \<Rightarrow> Vector2 \<Rightarrow> Vector2" where
  "stepPos d sp p =
     (case d of
        DirRight \<Rightarrow> p\<lparr>vx := vx p + sp\<rparr>
      | DirLeft \<Rightarrow> p\<lparr>vx := vx p - sp\<rparr>
      | DirUp \<Rightarrow> p\<lparr>vy := vy p - sp\<rparr>
      | DirDown \<Rightarrow> p\<lparr>vy := vy p + sp\<rparr>)"

definition carReturning :: "TileMap \<Rightarrow> Car \<Rightarrow> Car outcome" where
  "carReturning m car =
     (let tx = \<lfloor>(vx (pos car) + vx (esize car) / 2) / TILE_SIZE\<rfloor>;
          ty = \<lfloor>(vy (pos car) + vy (esize car) / 2) / TILE_SIZE\<rfloor> in
      obind (tileIs m ty tx DRIVEWAY)
        (\<lambda>onDriveway.
           if onDriveway then
             (let sp = speed car * (1 / 2);
                  car1 = car\<lparr>pos := stepPos (direction car) sp (pos car)\<rparr>;
                  nextTx = \<lfloor>(vx (pos car1) + vx (esize car1) / 2
                             + (if direction car1 = DirRight then sp * 5
                                else if direction car1 = DirLeft then - sp * 5 else 0)) / TILE_SIZE\<rfloor>;
                  nextTy = \<lfloor>(vy (pos car1) + vy (esize car1) / 2
                             + (if direction car1 = DirDown then sp * 5
                                else if direction car1 = DirUp then - sp * 5 else 0)) / TILE_SIZE\<rfloor> in
              if nextTx < 0 \<or> nextTx \<ge> MAP_WIDTH \<or> nextTy < 0 \<or> nextTy \<ge> MAP_HEIGHT
              then Returns (car1\<lparr>state := PARKED\<rparr>)
              else obind (tileIs m nextTy nextTx DRIVEWAY)
                     (\<lambda>d. Returns (if \<not> d then car1\<lparr>state := PARKED\<rparr> else car1)))
           else Returns (car\<lparr>pos := \<lparr>vx = vx (pos car) + vx (velocity car),
                                      vy = vy (pos car) + vy (velocity car)\<rparr>\<rparr>)))"

text \<open>Lines 937--946: a merging car whose centre is on a road tile starts to drive.\<close>

definition enterRoad :: "GameState \<Rightarrow> Car \<Rightarrow> int \<Rightarrow> int \<Rightarrow> Car" where
  "enterRoad s car tx ty =
     (let c = car\<lparr>state := DRIVING,
                  pos := \<lparr>vx = real_of_int tx * TILE_SIZE + (TILE_SIZE - vx (esize car)) / 2,
                          vy = real_of_int ty * TILE_SIZE + (TILE_SIZE - vy (esize car)) / 2\<rparr>\<rparr> in
      case getTrafficFlow tx ty (vRoads s) (hRoads s) of
        [] \<Rightarrow> c
      | bestFlow # rest \<Rightarrow>
          c\<lparr>direction := fd bestFlow,
            velocity := \<lparr>vx = real_of_int (fx bestFlow) * speed c,
                         vy = real_of_int (fy bestFlow) * speed c\<rparr>\<rparr>)"

definition carMerging :: "GameState \<Rightarrow> Car \<Rightarrow> (Car \<times> GameState \<times> bool) outcome" where
  "carMerging s car =
     (let sp = speed car * (1 / 2);
          car1 = car\<lparr>pos := stepPos (direction car) sp (pos car)\<rparr>;
          cx = vx (pos car1) + vx (esize car1) / 2;
          cy = vy (pos car1) + vy (esize car1) / 2;
          tx = \<lfloor>cx / TILE_SIZE\<rfloor>;
          ty = \<lfloor>cy / TILE_SIZE\<rfloor> in
      obind (if tx \<ge> 0 \<and> tx < MAP_WIDTH \<and> ty \<ge> 0 \<and> ty < MAP_HEIGHT
             then tileIs (mapGrid s) ty tx ROAD else Returns False)
        (\<lambda>onRoad.
           let car2 = (if onRoad then enterRoad s car1 tx ty else car1) in
           if checkCollision (player s) car2 \<and> \<not> isBoosting (player s)
              \<and> invulnerabilityTimer (player s) \<le> 0
           then (let (s1, ret) = takeHit Hit s in Returns (car2, s1, ret))
           else Returns (car2, s, False)))"

text \<open>The loop over the four neighbours that looks for a driveway to peel off into.\<close>

fun findDriveway ::
  "TileMap \<Rightarrow> int \<Rightarrow> int \<Rightarrow> (int \<times> int \<times> Direction) list \<Rightarrow> (int \<times> int \<times> Direction) option outcome" where
  "findDriveway m tileX tileY [] = Returns None"
| "findDriveway m tileX tileY (n # ns) =
     (let nx = tileX + fst n; ny = tileY + fst (snd n) in
      if nx \<ge> 0 \<and> nx < MAP_WIDTH \<and> ny \<ge> 0 \<and> ny < MAP_HEIGHT then
        (case tileAt m ny nx of
           Throws \<Rightarrow> Throws
         | Diverges \<Rightarrow> Diverges
         | Returns t \<Rightarrow> if t = Some DRIVEWAY then Returns (Some n) else findDriveway m tileX tileY ns)
      else findDriveway m tileX tileY ns)"

definition neighbors :: "(int \<times> int \<times> Direction) list" where
  "neighbors = [(1, 0, DirRight), (-1, 0, DirLeft), (0, 1, DirDown), (0, -1, DirUp)]"

definition isRoad :: "TileMap \<Rightarrow> int \<Rightarrow> int \<Rightarrow> bool outcome" where
  "isRoad m tx ty =
     (if tx < 0 \<or> tx \<ge> MAP_WIDTH \<or> ty < 0 \<or> ty \<ge> MAP_HEIGHT then Returns False
      else tileIs m ty tx ROAD)"

text \<open>The test of \<^verbatim>\<open>allowedFlows.filter\<close>: road ahead, and two tiles of road for a turn.\<close>

definition flowValid :: "TileMap \<Rightarrow> int \<Rightarrow> int \<Rightarrow> Direction \<Rightarrow> Flow \<Rightarrow> bool outcome" where
  "flowValid m tileX tileY d flow =
     (let tx = tileX + fx flow; ty = tileY + fy flow in
      obind (isRoad m tx ty)
        (\<lambda>a. if \<not> a then Returns False
             else if fd flow \<noteq> d then isRoad m (tx + fx flow) (ty + fy flow)
             else Returns True))"

fun validFlows :: "TileMap \<Rightarrow> int \<Rightarrow> int \<Rightarrow> Direction \<Rightarrow> Flow list \<Rightarrow> Flow list outcome" where
  "validFlows m tileX tileY d [] = Returns []"
| "validFlows m tileX tileY d (flow # flows) =
     (case flowValid m tileX tileY d flow of
        Throws \<Rightarrow> Throws
      | Diverges \<Rightarrow> Diverges
      | Returns keep \<Rightarrow>
          (case validFlows m tileX tileY d flows of
             Throws \<Rightarrow> Throws
           | Diverges \<Rightarrow> Diverges
           | Returns r \<Rightarrow> Returns (if keep then flow # r else r)))"

definition reverseDir :: "Direction \<Rightarrow> Direction" where
  "reverseDir d =
     (if d = DirLeft then DirRight else if d = DirRight then DirLeft
      else if d = DirUp then DirDown else DirUp)"

text \<open>
  Lines 975--1044, the decision at a tile centre, in the order of the source: the
  driveway found by the peel-off roll (lines 989--993), the reset of a car with no way
  on (lines 1021--1023, and 1059--1061 for a car that left the map), the candidates
  (lines 1027--1029), the choice (lines 1032--1034) and its effect (lines 1036--1043).
\<close>

definition peelOff :: "Car \<Rightarrow> int \<times> int \<times> Direction \<Rightarrow> real \<Rightarrow> real \<Rightarrow> Car" where
  "peelOff car n targetCenterX targetCenterY =
     car\<lparr>state := RETURNING, direction := snd (snd n),
         velocity := \<lparr>vx = real_of_int (fst n) * speed car * (1 / 2),
                      vy = real_of_int (fst (snd n)) * speed car * (1 / 2)\<rparr>,
         pos := \<lparr>vx = targetCenterX - vx (esize car) / 2,
                 vy = targetCenterY - vy (esize car) / 2\<rparr>\<rparr>"

definition resetHome :: "Car \<Rightarrow> Car" where
  "resetHome car = car\<lparr>state := PARKED, pos := homePos car, velocity := \<lparr>vx = 0, vy = 0\<rparr>\<rparr>"

definition candidatesOf :: "Car \<Rightarrow> Flow list \<Rightarrow> Flow list" where
  "candidatesOf car validOptions =
     (let nonReverse = filter (\<lambda>opt. fd opt \<noteq> reverseDir (direction car)) validOptions in
      if length nonReverse = 0 then validOptions else nonReverse)"

definition chooseFlow :: "(nat \<Rightarrow> real) \<Rightarrow> nat \<Rightarrow> Car \<Rightarrow> Flow list \<Rightarrow> Flow option \<times> nat" where
  "chooseFlow rnd k car candidates =
     (let straight = find (\<lambda>opt. fd opt = direction car) candidates;
          j = \<lfloor>rnd k * real (length candidates)\<rfloor>;
          choice = (if 0 \<le> j \<and> j < int (length candidates)
                    then Some (candidates ! nat j) else None) in
      case straight of
        Some st \<Rightarrow> (if rnd (k + 1) > 4 / 10 then Some st else choice, k + 2)
      | None \<Rightarrow> (choice, k + 1))"

definition steer :: "Car \<Rightarrow> Flow option \<Rightarrow> real \<Rightarrow> real \<Rightarrow> Car" where
  "steer car choice targetCenterX targetCenterY =
     (case choice of
        Some ch \<Rightarrow>
          if fd ch \<noteq> direction car
          then car\<lparr>pos := \<lparr>vx = targetCenterX - vx (esize car) / 2,
                           vy = targetCenterY - vy (esize car) / 2\<rparr>,
                   velocity := \<lparr>vx = real_of_int (fx ch) * speed car,
                                vy = real_of_int (fy ch) * speed car\<rparr>,
                   direction := fd ch\<rparr>
          else car\<lparr>velocity := \<lparr>vx = real_of_int (fx ch) * speed car,
                                vy = real_of_int (fy ch) * speed car\<rparr>\<rparr>
      | None \<Rightarrow> car)"

text \<open>The flag of the result is the \<^verbatim>\<open>continue\<close> of the source: the car is done for this tick.\<close>

definition carTurn ::
  "(nat \<Rightarrow> real) \<Rightarrow> GameState \<Rightarrow> Car \<Rightarrow> int \<Rightarrow> int \<Rightarrow> real \<Rightarrow> real
     \<Rightarrow> (Car \<times> GameState \<times> bool) outcome" where
  "carTurn rnd s car tileX tileY targetCenterX targetCenterY =
     (let r = rnd (rngIndex s);
          s1 = s\<lparr>rngIndex := rngIndex s + 1\<rparr> in
      obind (if r < 1 / 10 then findDriveway (mapGrid s1) tileX tileY neighbors else Returns None)
        (\<lambda>dw.
           case dw of
             Some n \<Rightarrow> Returns (peelOff car n targetCenterX targetCenterY, s1, True)
           | None \<Rightarrow>
               obind (validFlows (mapGrid s1) tileX tileY (direction car)
                        (getTrafficFlow tileX tileY (vRoads s1) (hRoads s1)))
                 (\<lambda>validOptions.
                    if length validOptions = 0 then Returns (resetHome car, s1, True)
                    else
                      (let candidates = candidatesOf car validOptions in
                       if length candidates > 0 then
                         (let (choice, k) = chooseFlow rnd (rngIndex s1) car candidates in
                          Returns (steer car choice targetCenterX targetCenterY,
                                   s1\<lparr>rngIndex := k\<rparr>, False))
                       else Returns (car, s1, False)))))"

text \<open>Lines 1046--1052: drifting back to the lane centre between tile centres.\<close>

definition laneCenter :: "Car \<Rightarrow> real \<Rightarrow> real \<Rightarrow> Car" where
  "laneCenter car targetCenterX targetCenterY =
     (if direction car = DirLeft \<or> direction car = DirRight then
        (let diff = targetCenterY - (vy (pos car) + vy (esize car) / 2) in
         if \<bar>diff\<bar> > 1 then car\<lparr>pos := (pos car)\<lparr>vy := vy (pos car) + diff * (1 / 10)\<rparr>\<rparr> else car)
      else
        (let diff = targetCenterX - (vx (pos car) + vx (esize car) / 2) in
         if \<bar>diff\<bar> > 1 then car\<lparr>pos := (pos car)\<lparr>vx := vx (pos car) + diff * (1 / 10)\<rparr>\<rparr> else car))"

text \<open>Lines 1055--1078: the move, the reset of a car that left the map, the contact.\<close>

definition carAdvance :: "Car \<Rightarrow> GameState \<Rightarrow> Car \<times> GameState \<times> bool" where
  "carAdvance car s =
     (let car1 = car\<lparr>pos := \<lparr>vx = vx (pos car) + vx (velocity car),
                              vy = vy (pos car) + vy (velocity car)\<rparr>\<rparr>;
          car2 = (if vx (pos car1) < 0 \<or> vx (pos car1) > MAP_PIXEL_WIDTH
                     \<or> vy (pos car1) < 0 \<or> vy (pos car1) > MAP_PIXEL_HEIGHT
                  then resetHome car1 else car1) in
      if checkCollision (player s) car2 \<and> stunned (player s) \<le> 0 \<and> \<not> isBoosting (player s)
         \<and> invulnerabilityTimer (player s) \<le> 0
      then (let (s1, ret) = takeHit Hit s in (car2, s1, ret))
      else (car2, s, False))"

definition carDriving :: "(nat \<Rightarrow> real) \<Rightarrow> GameState \<Rightarrow> Car \<Rightarrow> (Car \<times> GameState \<times> bool) outcome" where
  "carDriving rnd s car =
     (let carCenterX = vx (pos car) + vx (esize car) / 2;
          carCenterY = vy (pos car) + vy (esize car) / 2;
          tileX = \<lfloor>carCenterX / TILE_SIZE\<rfloor>;
          tileY = \<lfloor>carCenterY / TILE_SIZE\<rfloor>;
          targetCenterX = real_of_int tileX * TILE_SIZE + TILE_SIZE / 2;
          targetCenterY = real_of_int tileY * TILE_SIZE + TILE_SIZE / 2;
          distToCenter = \<bar>carCenterX - targetCenterX\<bar> + \<bar>carCenterY - targetCenterY\<bar> in
      obind (if distToCenter < speed car
             then carTurn rnd s car tileX tileY targetCenterX targetCenterY
             else Returns (laneCenter car targetCenterX targetCenterY, s, False))
        (\<lambda>(car1, s1, done). if done then Returns (car1, s1, False)
                             else Returns (carAdvance car1 s1)))"

text \<open>
  One iteration of \<^verbatim>\<open>for (const car of s.entities.cars)\<close>. The flag of the result
  is the \<^verbatim>\<open>return\<close> of \<^verbatim>\<open>update\<close> after the last heart is lost.
\<close>

definition carStep ::
  "real \<Rightarrow> (nat \<Rightarrow> real) \<Rightarrow> GameState \<Rightarrow> Car \<Rightarrow> (Car \<times> GameState \<times> bool) outcome" where
  "carStep dt rnd s car =
     (if frozenTimer car > 0 then Returns (car\<lparr>frozenTimer := frozenTimer car - dt\<rparr>, s, False)
      else if state car = PARKED then Returns (car, s, False)
      else if state car = RETURNING
        then obind (carReturning (mapGrid s) car) (\<lambda>c. Returns (c, s, False))
      else if state car = MERGING then carMerging s car
      else carDriving rnd s car)"

text \<open>
  The loop itself. The cars are handed over as a list and come back as a list: an
  iteration touches its own car, the player and the round flags only.
\<close>

fun carLoop ::
  "real \<Rightarrow> (nat \<Rightarrow> real) \<Rightarrow> Car list \<Rightarrow> GameState \<Rightarrow> (Car list \<times> GameState \<times> bool) outcome" where
  "carLoop dt rnd [] s = Returns ([], s, False)"
| "carLoop dt rnd (car # rest) s =
     (case carStep dt rnd s car of
        Throws \<Rightarrow> Throws
      | Diverges \<Rightarrow> Diverges
      | Returns (car1, s1, ret) \<Rightarrow>
          if ret then Returns (car1 # rest, s1, True)
          else (case carLoop dt rnd rest s1 of
                  Throws \<Rightarrow> Throws
                | Diverges \<Rightarrow> Diverges
                | Returns (rest1, s2, ret2) \<Rightarrow> Returns (car1 # rest1, s2, ret2)))"

definition carPhase :: "real \<Rightarrow> (nat \<Rightarrow> real) \<Rightarrow> GameState \<Rightarrow> (GameState \<times> bool) outcome" where
  "carPhase dt rnd s =
     obind (carLoop dt rnd (cars s) s) (\<lambda>(cs, s1, ret). Returns (s1\<lparr>cars := cs\<rparr>, ret))"

subsection \<open>Power-ups (lines 1081--1115)\<close>

definition applyPowerup :: "PowerUpType option \<Rightarrow> GameState \<Rightarrow> GameState" where
  "applyPowerup k s =
     (case k of
        Some COFFEE \<Rightarrow>
          s\<lparr>player := (player s)\<lparr>boostCharge := min (boostCharge (player s) + 1) MAX_BOOST_CHARGE,
                                 boostUnlocked := True,
                                 health := min (health (player s) + 1) (maxHealth (player s))\<rparr>\<rparr>
      | Some CLOCK \<Rightarrow> s\<lparr>timer := min (timer s + 10) INITIAL_TIME\<rparr>
      | Some TRAFFIC_LIGHT \<Rightarrow>
          s\<lparr>cars := map (\<lambda>c. c\<lparr>frozenTimer := 10\<rparr>) (cars s), trafficPauseTimer := 10\<rparr>
      | Some RAINCOAT \<Rightarrow> s\<lparr>player := (player s)\<lparr>puddleImmunity := 10\<rparr>\<rparr>
      | None \<Rightarrow> s)"

fun powerupLoop :: "real \<Rightarrow> PowerUp list \<Rightarrow> GameState \<Rightarrow> PowerUp list \<times> GameState" where
  "powerupLoop dt [] s = ([], s)"
| "powerupLoop dt (pup # pups) s =
     (let pup1 = pup\<lparr>life := map_option (\<lambda>l. l - dt) (life pup)\<rparr> in
      if (case life pup1 of Some l \<Rightarrow> l \<le> 0 | None \<Rightarrow> False) then powerupLoop dt pups s
      else if checkCollision (player s) pup1
        then powerupLoop dt pups (applyPowerup (kind pup1) (s\<lparr>audioLog := audioLog s @ [Powerup]\<rparr>))
      else (let (kept, s1) = powerupLoop dt pups s in (pup1 # kept, s1)))"

definition powerupPhase :: "real \<Rightarrow> GameState \<Rightarrow> GameState" where
  "powerupPhase dt s = (let (kept, s1) = powerupLoop dt (powerups s) s in s1\<lparr>powerups := kept\<rparr>)"

subsection \<open>\<^verbatim>\<open>update\<close> and the frame loop\<close>

definition update ::
  "real \<Rightarrow> real \<Rightarrow> Input \<Rightarrow> (nat \<Rightarrow> real) \<Rightarrow> GameState \<Rightarrow> GameState outcome" where
  "update dt now inp rnd s =
     (if \<not> isPlaying s \<or> isGameOver s then Returns s
      else
        (let s1 = s\<lparr>timer := timer s - dt\<rparr> in
         if timer s1 \<le> 0 then Returns (s1\<lparr>isGameOver := True, gameOverReason := ''TIMEOUT''\<rparr>)
         else
           (let s2 = (if trafficPauseTimer s1 > 0
                      then s1\<lparr>trafficPauseTimer := trafficPauseTimer s1 - dt\<rparr> else s1) in
            obind (spawnPhase rnd s2) (\<lambda>s3.
            obind (powerupSpawn rnd s3) (\<lambda>s4.
            obind (playerPhase dt now inp s4) (\<lambda>(s5, ret).
              if ret then Returns s5
              else
                obind (deliveryLogic now rnd (timersPhase dt s5)) (\<lambda>s6.
                obind (carPhase dt rnd s6) (\<lambda>(s7, ret2).
                  if ret2 then Returns s7 else Returns (powerupPhase dt s7)))))))))"


subsection \<open>Vocabulary of the specification\<close>

text \<open>A road band that starts at coordinate \<open>b\<close> covers the tiles \<open>b\<close> and \<open>b + 1\<close>.\<close>

definition inBand :: "int \<Rightarrow> int \<Rightarrow> bool" where
  "inBand t b \<longleftrightarrow> t = b \<or> t = b + 1"

definition onBand :: "int \<Rightarrow> int list \<Rightarrow> bool" where
  "onBand t bands \<longleftrightarrow> list_ex (inBand t) bands"

text \<open>Band starts in increasing order, no two bands sharing a tile.\<close>

definition bandsApart :: "int list \<Rightarrow> bool" where
  "bandsApart bands \<longleftrightarrow> sorted_wrt (\<lambda>a b. a + 1 < b) bands"

text \<open>The flow rule in the words of the specification: down and left on even indices.\<close>

definition specVerticalFlow :: "nat \<Rightarrow> Flow" where
  "specVerticalFlow i =
     (if even i then \<lparr>fx = 0, fy = 1, fd = DirDown\<rparr> else \<lparr>fx = 0, fy = -1, fd = DirUp\<rparr>)"

definition specHorizontalFlow :: "nat \<Rightarrow> Flow" where
  "specHorizontalFlow j =
     (if even j then \<lparr>fx = -1, fy = 0, fd = DirLeft\<rparr> else \<lparr>fx = 1, fy = 0, fd = DirRight\<rparr>)"

text \<open>The contract of \<^verbatim>\<open>Math.random()\<close>: every draw lies in \<open>[0, 1)\<close>.\<close>

definition validRandom :: "(nat \<Rightarrow> real) \<Rightarrow> bool" where
  "validRandom rnd \<longleftrightarrow> (\<forall>k. 0 \<le> rnd k \<and> rnd k < 1)"

text \<open>A position handed out by \<^verbatim>\<open>getRandomRoadPosition\<close>: offset 4 into a ROAD tile.\<close>

definition roadSpot :: "TileMap \<Rightarrow> Vector2 \<Rightarrow> bool" where
  "roadSpot m p =
     (let tx = \<lfloor>vx p / TILE_SIZE\<rfloor>; ty = \<lfloor>vy p / TILE_SIZE\<rfloor> in
      0 \<le> tx \<and> tx < MAP_WIDTH \<and> 0 \<le> ty \<and> ty < MAP_HEIGHT
      \<and> tileAt m ty tx = Returns (Some ROAD)
      \<and> p = \<lparr>vx = real_of_int tx * TILE_SIZE + 4, vy = real_of_int ty * TILE_SIZE + 4\<rparr>)"

subsection \<open>Concrete inputs\<close>

definition zeroStream :: "nat \<Rightarrow> real" where
  "zeroStream k = 0"

definition halfStream :: "nat \<Rightarrow> real" where
  "halfStream k = 1 / 2"

definition allRoad :: TileMap where
  "allRoad = replicate 30 (replicate 50 ROAD)"

text \<open>The value the component's state ref starts with (lines 34--64).\<close>

definition initialState :: GameState where
  "initialState =
     \<lparr>isPlaying = False, isGameOver = False, score = 0, timer = INITIAL_TIME, deliveries = 0,
      lastDeliveryTime = 0, trafficPauseTimer = 0, mapGrid = [], vRoads = [], hRoads = [],
      player = \<lparr>pos = \<lparr>vx = 0, vy = 0\<rparr>, esize = \<lparr>vx = 14, vy = 14\<rparr>,
                velocity = \<lparr>vx = 0, vy = 0\<rparr>, speed = PLAYER_SPEED, direction = DirRight,
                isBoosting = False, boostTimer = 0, boostCharge = 0, boostUnlocked = False,
                stunned = 0, puddleImmunity = 0, health = 3, maxHealth = 3,
                invulnerabilityTimer = 0\<rparr>,
      houses = [], cars = [], puddles = [], powerups = [], staticObjects = [],
      gameOverReason = [], prevDash = False, lastMoveSoundTime = 0,
      rngIndex = 0, audioLog = []\<rparr>"

definition noInput :: Input where
  "noInput = \<lparr>ix = 0, iy = 0, dash = False\<rparr>"

subsection \<open>Round start (lines 612--650 of \<^verbatim>\<open>initGame\<close>)\<close>

text \<open>
  What the generator hands to the final assignment of \<^verbatim>\<open>initGame\<close>: the map, the
  band lists, the houses after target selection, the cars, the puddles, the trees,
  the start position and the position reached in the random stream.
\<close>

record Generated =
  genMap :: TileMap
  genVRoads :: "int list"
  genHRoads :: "int list"
  genHouses :: "House list"
  genCars :: "Car list"
  genPuddles :: "Entity list"
  genStaticObjects :: "Entity list"
  genStartPos :: Vector2
  genRngIndex :: nat

definition startRound :: "Generated \<Rightarrow> real \<Rightarrow> GameState \<Rightarrow> GameState" where
  "startRound g now prev =
     \<lparr>isPlaying = True, isGameOver = False, score = 0, timer = INITIAL_TIME, deliveries = 0,
      lastDeliveryTime = now, trafficPauseTimer = 0,
      mapGrid = genMap g, vRoads = genVRoads g, hRoads = genHRoads g,
      player = (player prev)\<lparr>pos := genStartPos g, esize := \<lparr>vx = 14, vy = 14\<rparr>,
                               health := 3, maxHealth := 3, invulnerabilityTimer := 0,
                               puddleImmunity := 0, boostCharge := 0, boostUnlocked := False,
                               boostTimer := 0, isBoosting := False\<rparr>,
      houses = genHouses g, cars = genCars g, puddles = genPuddles g, powerups = [],
      staticObjects = genStaticObjects g,
      gameOverReason = [], prevDash = False, lastMoveSoundTime = lastMoveSoundTime prev,
      rngIndex = genRngIndex g, audioLog = audioLog prev\<rparr>"

text \<open>
  Lines 1986--1991 of the frame loop: \<^verbatim>\<open>update\<close> gets the time since the last
  frame in seconds, cut off at a tenth of a second.
\<close>

definition loopDt :: "real \<Rightarrow> real \<Rightarrow> real" where
  "loopDt time lastTime = min ((time - lastTime) / 1000) (1 / 10)"

text \<open>
  Lines 554--556 of \<^verbatim>\<open>initGame\<close>: one of the placed houses, if there is any,
  becomes the target.
\<close>

definition selectTarget :: "(nat \<Rightarrow> real) \<Rightarrow> nat \<Rightarrow> House list \<Rightarrow> House list outcome" where
  "selectTarget rnd k hs =
     (if length hs > 0 then
        (let j = \<lfloor>rnd k * real (length hs)\<rfloor> in
         if j < 0 \<or> int (length hs) \<le> j then Throws
         else Returns (hs[nat j := (hs ! nat j)\<lparr>isTarget := True\<rparr>]))
      else Returns hs)"

text \<open>
  The states of a round: the one \<^verbatim>\<open>initGame\<close> assigns, and those that ticks of the
  frame loop lead to. The houses of the first state are houses as the placement
  loop pushes them (line 383: \<^verbatim>\<open>isTarget: false\<close>) after target selection; the rest of
  the generated content is arbitrary. The frame loop takes the time of a frame as the
  browser hands it over and compares it with nothing: \<open>time\<close> and \<open>lastTime\<close> are
  arbitrary, and the delta of a tick is negative when \<open>time\<close> lies before \<open>lastTime\<close>
  (line 1982 sets \<^verbatim>\<open>lastTimeRef\<close> from \<^verbatim>\<open>performance.now()\<close>, the first callback
  gets the time stamp of its frame).
\<close>

inductive reachable :: "GameState \<Rightarrow> bool" where
  start: "list_all (\<lambda>h. \<not> isTarget h) placed
           \<Longrightarrow> selectTarget rnd k placed = Returns (genHouses g)
           \<Longrightarrow> reachable (startRound g now prev)"
| tick: "reachable s
           \<Longrightarrow> update (loopDt time lastTime) now inp rnd s = Returns s'
           \<Longrightarrow> reachable s'"

text \<open>
  The states of a round in which no frame time lies before the one of the frame
  before it: every delta is non-negative.
\<close>

inductive reachableForward :: "GameState \<Rightarrow> bool" where
  start: "list_all (\<lambda>h. \<not> isTarget h) placed
           \<Longrightarrow> selectTarget rnd k placed = Returns (genHouses g)
           \<Longrightarrow> reachableForward (startRound g now prev)"
| tick: "reachableForward s \<Longrightarrow> lastTime \<le> time
           \<Longrightarrow> update (loopDt time lastTime) now inp rnd s = Returns s'
           \<Longrightarrow> reachableForward s'"

text \<open>A run of ticks: one frame after the other on the same random stream.\<close>

record Frame =
  frameDt :: real
  frameNow :: real
  frameInput :: Input

fun runTicks :: "(nat \<Rightarrow> real) \<Rightarrow> Frame list \<Rightarrow> GameState \<Rightarrow> GameState outcome" where
  "runTicks rnd [] s = Returns s"
| "runTicks rnd (f # fs) s =
     (case update (frameDt f) (frameNow f) (frameInput f) rnd s of
        Throws \<Rightarrow> Throws
      | Diverges \<Rightarrow> Diverges
      | Returns s1 \<Rightarrow> runTicks rnd fs s1)"

text \<open>The delta of a frame as the loop hands it to \<^verbatim>\<open>update\<close>: at most a tenth of a second.\<close>

definition frameClamped :: "Frame \<Rightarrow> bool" where
  "frameClamped f \<longleftrightarrow> frameDt f \<le> 1 / 10"

text \<open>The same for a frame whose time does not lie before the last one.\<close>

definition frameOK :: "Frame \<Rightarrow> bool" where
  "frameOK f \<longleftrightarrow> 0 \<le> frameDt f \<and> frameDt f \<le> 1 / 10"

subsection \<open>Round invariant\<close>

definition running :: "GameState \<Rightarrow> bool" where
  "running s \<longleftrightarrow>
     \<not> isGameOver s \<and> 0 < timer s
     \<and> 1 \<le> health (player s) \<and> health (player s) \<le> maxHealth (player s)"

definition overHealth :: "GameState \<Rightarrow> bool" where
  "overHealth s \<longleftrightarrow>
     isGameOver s \<and> gameOverReason s = ''HEALTH'' \<and> 0 < timer s
     \<and> health (player s) = 0 \<and> 0 \<le> maxHealth (player s)"

definition overTimeout :: "GameState \<Rightarrow> bool" where
  "overTimeout s \<longleftrightarrow>
     isGameOver s \<and> gameOverReason s = ''TIMEOUT'' \<and> - (1 / 10) < timer s \<and> timer s \<le> 0
     \<and> 1 \<le> health (player s) \<and> health (player s) \<le> maxHealth (player s)"

definition roundInv :: "GameState \<Rightarrow> bool" where
  "roundInv s \<longleftrightarrow> running s \<or> overHealth s \<or> overTimeout s"

subsection \<open>Proof vocabulary\<close>

text \<open>The fields that the activation of a car, the power-up roll and a turning car leave alone.\<close>

definition coreSame :: "GameState \<Rightarrow> GameState \<Rightarrow> bool" where
  "coreSame s s' \<longleftrightarrow>
     isPlaying s' = isPlaying s \<and> isGameOver s' = isGameOver s
     \<and> gameOverReason s' = gameOverReason s \<and> timer s' = timer s \<and> score s' = score s
     \<and> deliveries s' = deliveries s \<and> player s' = player s \<and> houses s' = houses s
     \<and> mapGrid s' = mapGrid s \<and> vRoads s' = vRoads s \<and> hRoads s' = hRoads s
     \<and> puddles s' = puddles s \<and> staticObjects s' = staticObjects s
     \<and> audioLog s' = audioLog s \<and> trafficPauseTimer s' = trafficPauseTimer s"

text \<open>Lines 694 and 701--703 on a round that goes on: the two countdowns of the round.\<close>

definition pauseTick :: "real \<Rightarrow> GameState \<Rightarrow> GameState" where
  "pauseTick dt s =
     (if trafficPauseTimer s > 0
      then s\<lparr>timer := timer s - dt, trafficPauseTimer := trafficPauseTimer s - dt\<rparr>
      else s\<lparr>timer := timer s - dt\<rparr>)"

text \<open>
  A round without houses, cars, puddles or trees on a map that is road all over, the
  player left alone on the start tile, and a frame of 90 ms; after 1667 such frames
  the clock has run out.
\<close>

definition quietGen :: Generated where
  "quietGen =
     \<lparr>genMap = allRoad, genVRoads = [], genHRoads = [], genHouses = [], genCars = [],
      genPuddles = [], genStaticObjects = [], genStartPos = \<lparr>vx = 10, vy = 938\<rparr>,
      genRngIndex = 0\<rparr>"

definition quietStart :: GameState where
  "quietStart = startRound quietGen 0 initialState"

definition quietAt :: "real \<Rightarrow> nat \<Rightarrow> GameState" where
  "quietAt t k = quietStart\<lparr>timer := t, rngIndex := k\<rparr>"

definition quietFrame :: Frame where
  "quietFrame = \<lparr>frameDt = 9 / 100, frameNow = 0, frameInput = noInput\<rparr>"

definition timedOut :: GameState where
  "timedOut = (quietAt (- (3 / 100)) 3332)\<lparr>isGameOver := True, gameOverReason := ''TIMEOUT''\<rparr>"

subsection \<open>Delivery in the earlier variant (\<^verbatim>\<open>src/unnamed/part_000\<close>, lines 403--420 and 549--583)\<close>







subsection \<open>Vocabulary of the delivery claims\<close>

definition targetCount :: "House list \<Rightarrow> nat" where
  "targetCount hs = length (filter isTarget hs)"





text \<open>
  Two houses, the first one the target with its door 42 px from the player; the same
  round in the earlier variant after six deliveries.
\<close>

definition houseA :: House where
  "houseA = \<lparr>pos = \<lparr>vx = 64, vy = 832\<rparr>, esize = \<lparr>vx = 96, vy = 64\<rparr>, isTarget = True,
             doorPos = \<lparr>vx = 48, vy = 920\<rparr>, facing = DirDown,
             drivewayPos = \<lparr>vx = 128, vy = 864\<rparr>\<rparr>"

definition houseB :: House where
  "houseB = \<lparr>pos = \<lparr>vx = 640, vy = 832\<rparr>, esize = \<lparr>vx = 96, vy = 64\<rparr>, isTarget = False,
             doorPos = \<lparr>vx = 688, vy = 920\<rparr>, facing = DirDown,
             drivewayPos = \<lparr>vx = 704, vy = 864\<rparr>\<rparr>"

definition deliveryStart :: GameState where
  "deliveryStart = startRound (quietGen\<lparr>genHouses := [houseA, houseB]\<rparr>) 0 initialState"


subsection \<open>Vocabulary of the target and walkability claims\<close>

text \<open>One target among the houses, none when there is no house.\<close>

definition oneTarget :: "House list \<Rightarrow> bool" where
  "oneTarget hs \<longleftrightarrow> targetCount hs = (if hs = [] then 0 else 1)"

text \<open>A corner point lies on a ROAD tile of the map.\<close>

definition cornerOnRoad :: "TileMap \<Rightarrow> Vector2 \<Rightarrow> bool" where
  "cornerOnRoad m c =
     (let tx = \<lfloor>vx c / TILE_SIZE\<rfloor>; ty = \<lfloor>vy c / TILE_SIZE\<rfloor> in
      0 \<le> tx \<and> tx < MAP_WIDTH \<and> 0 \<le> ty \<and> ty < MAP_HEIGHT
      \<and> tileAt m ty tx = Returns (Some ROAD))"

definition playerOnRoad :: "GameState \<Rightarrow> bool" where
  "playerOnRoad s \<longleftrightarrow> isWalkable (pos (player s)) (esize (player s)) (mapGrid s) = Returns True"

text \<open>The scenery and the player's box, and the player's position, are the same in two states.\<close>

definition lotSame :: "GameState \<Rightarrow> GameState \<Rightarrow> bool" where
  "lotSame s s' \<longleftrightarrow>
     houses s' = houses s \<and> mapGrid s' = mapGrid s \<and> vRoads s' = vRoads s
     \<and> hRoads s' = hRoads s \<and> puddles s' = puddles s \<and> staticObjects s' = staticObjects s
     \<and> esize (player s') = esize (player s) \<and> isPlaying s' = isPlaying s"

definition posSame :: "GameState \<Rightarrow> GameState \<Rightarrow> bool" where
  "posSame s s' \<longleftrightarrow> pos (player s') = pos (player s)"

text \<open>The clock and the tally of the round are the same in two states.\<close>

definition tallySame :: "GameState \<Rightarrow> GameState \<Rightarrow> bool" where
  "tallySame s s' \<longleftrightarrow>
     timer s' = timer s \<and> score s' = score s \<and> deliveries s' = deliveries s"

text \<open>The state the delivery block hands to \<^verbatim>\<open>activateCar\<close>, with the next target \<open>j\<close>.\<close>

definition deliveredState :: "real \<Rightarrow> GameState \<Rightarrow> nat \<Rightarrow> nat \<Rightarrow> nat \<Rightarrow> GameState" where
  "deliveredState now s t j k =
     s\<lparr>score := score s + 1, deliveries := deliveries s + 1,
       audioLog := audioLog s @ [Delivery],
       timer := min (timer s + (if now / 1000 - lastDeliveryTime s < 5 then 2 + 2 else 2)) INITIAL_TIME,
       lastDeliveryTime := now / 1000,
       houses := ((houses s)[t := (houses s ! t)\<lparr>isTarget := False\<rparr>])
                   [j := ((houses s)[t := (houses s ! t)\<lparr>isTarget := False\<rparr>] ! j)\<lparr>isTarget := True\<rparr>],
       rngIndex := k\<rparr>"

text \<open>
  The point \<open>(x, y)\<close> lies on a tile inside the map bounds that the map holds and that is
  of kind ROAD.
\<close>

definition roadAt :: "TileMap \<Rightarrow> real \<Rightarrow> real \<Rightarrow> bool" where
  "roadAt m x y \<longleftrightarrow>
     (let tx = \<lfloor>x / TILE_SIZE\<rfloor>; ty = \<lfloor>y / TILE_SIZE\<rfloor> in
      0 \<le> tx \<and> tx < MAP_WIDTH \<and> 0 \<le> ty \<and> ty < MAP_HEIGHT
      \<and> nat ty < length m \<and> nat tx < length (m ! nat ty) \<and> m ! nat ty ! nat tx = ROAD)"

text \<open>
  A map with one lane of road along its lower edge and grass above it, the player on
  that lane two pixels below the grass, and a frame with the stick pushed up and right.
\<close>

definition stripMap :: TileMap where
  "stripMap = replicate 29 (replicate 50 GRASS) @ [replicate 50 ROAD]"

definition stripStart :: GameState where
  "stripStart =
     startRound (quietGen\<lparr>genMap := stripMap, genStartPos := \<lparr>vx = 10, vy = 930\<rparr>\<rparr>) 0 initialState"

definition stepUpRight :: Frame where
  "stepUpRight = \<lparr>frameDt = 9 / 100, frameNow = 0, frameInput = \<lparr>ix = 1, iy = - 1, dash = False\<rparr>\<rparr>"

definition stripMoved :: GameState where
  "stripMoved =
     stripStart\<lparr>timer := 150 - 9 / 100, rngIndex := 2,
                player := (player stripStart)\<lparr>pos := \<lparr>vx = 14, vy = 930\<rparr>, direction := DirUp\<rparr>\<rparr>"





text \<open>
  The damage blocks are the only callers of \<^verbatim>\<open>audio.playSplash\<close> and
  \<^verbatim>\<open>audio.playHit\<close>: the number of these calls in the log is the number of hearts
  taken so far.
\<close>

definition damageCount :: "GameState \<Rightarrow> nat" where
  "damageCount s = length (filter (\<lambda>e. e = Splash \<or> e = Hit) (audioLog s))"

text \<open>No heart taken between two states, and one heart taken from a player who was vulnerable.\<close>

definition quietHealth :: "GameState \<Rightarrow> GameState \<Rightarrow> bool" where
  "quietHealth s s' \<longleftrightarrow>
     damageCount s' = damageCount s
     \<and> invulnerabilityTimer (player s') = invulnerabilityTimer (player s)
     \<and> health (player s') = health (player s)"

definition struck :: "GameState \<Rightarrow> GameState \<Rightarrow> bool" where
  "struck s s' \<longleftrightarrow>
     invulnerabilityTimer (player s) \<le> 0
     \<and> damageCount s' = damageCount s + 1
     \<and> invulnerabilityTimer (player s') = 2
     \<and> health (player s') = health (player s) - 1"


text \<open>
  A round on the all-road map with a puddle under the start tile, the player left alone
  in it, and frames of 100 ms. \<open>wetAt\<close> is that round with the given clock, draw index,
  health, invulnerability timer and log of sounds.
\<close>

definition wetStart :: GameState where
  "wetStart =
     startRound (quietGen\<lparr>genPuddles := [\<lparr>pos = \<lparr>vx = 0, vy = 928\<rparr>, esize = \<lparr>vx = 32, vy = 32\<rparr>\<rparr>]\<rparr>)
       0 initialState"

definition wetAt :: "real \<Rightarrow> nat \<Rightarrow> int \<Rightarrow> real \<Rightarrow> AudioEvent list \<Rightarrow> GameState" where
  "wetAt t k h i lg =
     wetStart\<lparr>timer := t, rngIndex := k,
              player := (player wetStart)\<lparr>health := h, invulnerabilityTimer := i\<rparr>,
              audioLog := lg\<rparr>"

definition wetFrame :: Frame where
  "wetFrame = \<lparr>frameDt = 1 / 10, frameNow = 0, frameInput = noInput\<rparr>"

text \<open>
  The same round after the first frame, 18 frames later, and after 41 frames, when the
  third heart is gone.
\<close>

definition wetHit :: GameState where
  "wetHit = wetAt (150 - 1 / 10) 2 2 (19 / 10) [Splash]"


definition wetOver :: GameState where
  "wetOver = (wetAt (150 - 41 / 10) 82 0 2 [Splash, Splash, Splash])
               \<lparr>isGameOver := True, gameOverReason := ''HEALTH''\<rparr>"

subsection \<open>Vocabulary of the car claims\<close>

text \<open>The cars and the traffic pause are the same in two states.\<close>

definition fleetSame :: "GameState \<Rightarrow> GameState \<Rightarrow> bool" where
  "fleetSame s s' \<longleftrightarrow> cars s' = cars s \<and> trafficPauseTimer s' = trafficPauseTimer s"

text \<open>
  What \<^verbatim>\<open>activateCar\<close> does to the parked car it picks: the car starts to merge, takes
  over the traffic pause if there is one, and faces the road.
\<close>

definition woken :: "real \<Rightarrow> Car \<Rightarrow> Car \<Rightarrow> bool" where
  "woken pause c c' \<longleftrightarrow>
     state c = PARKED
     \<and> (\<exists>d. c' = c\<lparr>frozenTimer := (if pause > 0 then pause else frozenTimer c),
                     state := MERGING, direction := d\<rparr>)"

text \<open>
  The tile under the centre of a car, the test of line 975 (the centre of the car is
  within \<open>speed\<close> of the centre of that tile), and what the decision at the centre
  computes from there: the driveway beside the tile, and the flow options that are valid.
\<close>

definition carTile :: "Car \<Rightarrow> int \<times> int" where
  "carTile c = (\<lfloor>(vx (pos c) + vx (esize c) / 2) / TILE_SIZE\<rfloor>,
                \<lfloor>(vy (pos c) + vy (esize c) / 2) / TILE_SIZE\<rfloor>)"

definition atTileCentre :: "Car \<Rightarrow> bool" where
  "atTileCentre c \<longleftrightarrow>
     \<bar>vx (pos c) + vx (esize c) / 2 - (real_of_int (fst (carTile c)) * TILE_SIZE + TILE_SIZE / 2)\<bar>
     + \<bar>vy (pos c) + vy (esize c) / 2 - (real_of_int (snd (carTile c)) * TILE_SIZE + TILE_SIZE / 2)\<bar>
     < speed c"


definition validOptions :: "GameState \<Rightarrow> Car \<Rightarrow> Flow list outcome" where
  "validOptions s c =
     validFlows (mapGrid s) (fst (carTile c)) (snd (carTile c)) (direction c)
       (getTrafficFlow (fst (carTile c)) (snd (carTile c)) (vRoads s) (hRoads s))"




text \<open>
  A car that drives down the band: at the centre of the last tile of the band, and one
  step before it. A car parked beside that tile. A traffic light under the player.
\<close>

definition drivingCar :: "real \<Rightarrow> Car" where
  "drivingCar fz =
     \<lparr>pos = \<lparr>vx = 69, vy = 938\<rparr>, esize = \<lparr>vx = 22, vy = 12\<rparr>, velocity = \<lparr>vx = 0, vy = 7 / 2\<rparr>,
      speed = CAR_SPEED, direction = DirDown, frozenTimer = fz, state = DRIVING,
      homePos = \<lparr>vx = 710, vy = 870\<rparr>\<rparr>"

definition arrivingCar :: Car where
  "arrivingCar = (drivingCar 0)\<lparr>pos := \<lparr>vx = 69, vy = 938 - 7 / 2\<rparr>\<rparr>"




definition tenth :: Frame where
  "tenth = \<lparr>frameDt = 1 / 10, frameNow = 0, frameInput = noInput\<rparr>"


section \<open>Verification\<close>

subsection \<open>Traffic flow\<close>

lemma findIndex_ge: "findIndex P xs \<ge> -1"
  by (induction xs) (auto simp: Let_def)

lemma findIndex_none: "findIndex P xs = -1 \<longleftrightarrow> \<not> list_ex P xs"
proof (induction xs)
  case Nil
  show ?case by simp
next
  case (Cons x xs)
  have "findIndex P xs \<ge> -1" by (rule findIndex_ge)
  with Cons show ?case by (auto simp: Let_def)
qed

lemma findIndex_band:
  assumes "sorted_wrt (\<lambda>a b. a + 1 < b) bands" "i < length bands" "inBand t (bands ! i)"
  shows "findIndex (\<lambda>v. t = v \<or> t = v + 1) bands = int i"
  using assms
proof (induction bands arbitrary: i)
  case Nil
  then show ?case by simp
next
  case (Cons b bs)
  show ?case
  proof (cases i)
    case 0
    with Cons.prems show ?thesis by (simp add: inBand_def)
  next
    case (Suc n)
    with Cons.prems have n: "n < length bs" and inb: "inBand t (bs ! n)" by simp_all
    from Cons.prems have srt: "sorted_wrt (\<lambda>a b. a + 1 < b) bs"
      and gap: "\<forall>y\<in>set bs. b + 1 < y" by simp_all
    from gap n have "b + 1 < bs ! n" by simp
    with inb have notb: "\<not> (t = b \<or> t = b + 1)" by (auto simp: inBand_def)
    have "findIndex (\<lambda>v. t = v \<or> t = v + 1) bs = int n" using Cons.IH[OF srt n inb] .
    with notb Suc show ?thesis by (simp add: Let_def)
  qed
qed

text \<open>
  Claim C6. With the bands of each axis in increasing order and apart, a tile in the
  vertical band of index \<open>i\<close> gets the vertical flow down when \<open>i\<close> is even and up
  otherwise; a tile in the horizontal band of index \<open>j\<close> gets left when \<open>j\<close> is even
  and right otherwise; a tile on both gets both, the vertical one first.
\<close>

theorem traffic_flow_band_parity:
  assumes "bandsApart vs" and "bandsApart hs"
  shows "(i < length vs \<and> inBand tx (vs ! i) \<and> j < length hs \<and> inBand ty (hs ! j)
            \<longrightarrow> getTrafficFlow tx ty vs hs = [specVerticalFlow i, specHorizontalFlow j])
       \<and> (i < length vs \<and> inBand tx (vs ! i) \<and> \<not> onBand ty hs
            \<longrightarrow> getTrafficFlow tx ty vs hs = [specVerticalFlow i])
       \<and> (\<not> onBand tx vs \<and> j < length hs \<and> inBand ty (hs ! j)
            \<longrightarrow> getTrafficFlow tx ty vs hs = [specHorizontalFlow j])"
proof -
  have V: "findIndex (\<lambda>v. tx = v \<or> tx = v + 1) vs = int i"
    if "i < length vs" "inBand tx (vs ! i)"
    using findIndex_band[OF assms(1)[unfolded bandsApart_def] that] .
  have H: "findIndex (\<lambda>h. ty = h \<or> ty = h + 1) hs = int j"
    if "j < length hs" "inBand ty (hs ! j)"
    using findIndex_band[OF assms(2)[unfolded bandsApart_def] that] .
  have VN: "findIndex (\<lambda>v. tx = v \<or> tx = v + 1) vs = -1" if "\<not> onBand tx vs"
    using that by (simp add: findIndex_none onBand_def inBand_def[abs_def])
  have HN: "findIndex (\<lambda>h. ty = h \<or> ty = h + 1) hs = -1" if "\<not> onBand ty hs"
    using that by (simp add: findIndex_none onBand_def inBand_def[abs_def])
  have par: "(int n mod 2 = 0) = even n" for n by presburger
  show ?thesis
    by (auto simp: getTrafficFlow_def Let_def V H VN HN specVerticalFlow_def
        specHorizontalFlow_def par)
qed

theorem traffic_flow_band_parity_witness:
  "bandsApart [2, 12, 46] \<and> bandsApart [2, 12, 26]
   \<and> getTrafficFlow 13 2 [2, 12, 46] [2, 12, 26]
       = [\<lparr>fx = 0, fy = -1, fd = DirUp\<rparr>, \<lparr>fx = -1, fy = 0, fd = DirLeft\<rparr>]"
proof -
  have a: "bandsApart [2, 12, 46]" and b: "bandsApart [2, 12, 26]"
    by (simp_all add: bandsApart_def)
  show ?thesis
    using a b traffic_flow_band_parity[OF a b, of 1 13 0 2]
    by (simp add: inBand_def specVerticalFlow_def specHorizontalFlow_def)
qed

subsection \<open>Random road positions\<close>

lemma tileAt_total:
  "0 \<le> ty \<Longrightarrow> ty < int (length m) \<Longrightarrow> \<exists>t. tileAt m ty tx = Returns t"
  by (simp add: tileAt_def Let_def)

lemma tileAt_not_Diverges: "tileAt m ty tx \<noteq> Diverges"
  by (simp add: tileAt_def Let_def)

lemma outcome_total: "r \<noteq> Throws \<Longrightarrow> r \<noteq> Diverges \<Longrightarrow> \<exists>a. r = Returns a"
  by (cases r) simp_all

lemma walkablePoints_safe:
  "MAP_HEIGHT \<le> int (length m) \<Longrightarrow> walkablePoints ps m \<noteq> Throws \<and> walkablePoints ps m \<noteq> Diverges"
proof (induction ps)
  case Nil
  show ?case by simp
next
  case (Cons p ps)
  show ?case
  proof (cases "\<lfloor>vx p / TILE_SIZE\<rfloor> < 0 \<or> \<lfloor>vx p / TILE_SIZE\<rfloor> \<ge> MAP_WIDTH
                 \<or> \<lfloor>vy p / TILE_SIZE\<rfloor> < 0 \<or> \<lfloor>vy p / TILE_SIZE\<rfloor> \<ge> MAP_HEIGHT")
    case True
    then show ?thesis by (auto simp: Let_def)
  next
    case False
    then have "0 \<le> \<lfloor>vy p / TILE_SIZE\<rfloor>" "\<lfloor>vy p / TILE_SIZE\<rfloor> < int (length m)"
      using Cons.prems by linarith+
    from tileAt_total[OF this] obtain t
      where "tileAt m \<lfloor>vy p / TILE_SIZE\<rfloor> \<lfloor>vx p / TILE_SIZE\<rfloor> = Returns t" by blast
    with False Cons.IH[OF Cons.prems] show ?thesis by (auto simp: Let_def)
  qed
qed

lemma isWalkable_total:
  "MAP_HEIGHT \<le> int (length m) \<Longrightarrow> \<exists>b. isWalkable p sz m = Returns b"
  unfolding isWalkable_def using walkablePoints_safe by (intro outcome_total) auto

lemma random_index:
  assumes "0 \<le> r" "r < 1" "0 < n"
  shows "0 \<le> \<lfloor>r * real_of_int n\<rfloor> \<and> \<lfloor>r * real_of_int n\<rfloor> < n"
proof -
  have "0 \<le> r * real_of_int n" using assms by simp
  moreover have "r * real_of_int n < real_of_int n" using assms by simp
  ultimately show ?thesis by (simp add: floor_less_iff)
qed

lemma floor_spot: "\<lfloor>(real_of_int t * 32 + 4) / 32\<rfloor> = t"
  by (simp add: floor_eq_iff) 

lemma getRandomRoadPositionLoop_total:
  "MAP_HEIGHT \<le> int (length m) \<Longrightarrow> validRandom rnd \<Longrightarrow> attempts \<le> 1000 \<Longrightarrow>
     \<exists>p k'. getRandomRoadPositionLoop attempts m sz av rnd k = Returns (p, k')
       \<and> k' \<le> k + 2 * (1000 - attempts)
       \<and> (p = \<lparr>vx = 64, vy = 64\<rparr>
          \<or> roadSpot m p \<and> isWalkable p sz m = Returns True
            \<and> \<not> list_ex (checkCollision \<lparr>pos = p, esize = sz\<rparr>) av)"
proof (induction attempts m sz av rnd k rule: getRandomRoadPositionLoop.induct)
  case (1 attempts m sz av rnd k)
  let ?tx = "\<lfloor>rnd k * real_of_int MAP_WIDTH\<rfloor>"
  let ?ty = "\<lfloor>rnd (k + 1) * real_of_int MAP_HEIGHT\<rfloor>"
  let ?p = "\<lparr>vx = real_of_int ?tx * TILE_SIZE + 4, vy = real_of_int ?ty * TILE_SIZE + 4\<rparr>"
  note rows = "1.prems"(1) and rnd = "1.prems"(2)
  show ?case
  proof (cases "attempts < 1000")
    case False
    then show ?thesis by (subst getRandomRoadPositionLoop.simps) simp
  next
    case lt: True
    from rnd have r0: "0 \<le> rnd k" "rnd k < 1" and r1: "0 \<le> rnd (k + 1)" "rnd (k + 1) < 1"
      by (simp_all add: validRandom_def)
    have tx: "0 \<le> ?tx \<and> ?tx < MAP_WIDTH" using random_index[OF r0, of MAP_WIDTH] by simp
    have ty: "0 \<le> ?ty \<and> ?ty < MAP_HEIGHT" using random_index[OF r1, of MAP_HEIGHT] by simp
    from ty rows have "0 \<le> ?ty" "?ty < int (length m)" by linarith+
    from tileAt_total[OF this] obtain tile where tile: "tileAt m ?ty ?tx = Returns tile" by blast
    from isWalkable_total[OF rows] obtain w where w: "isWalkable ?p sz m = Returns w" by blast
    have more: "Suc attempts \<le> 1000" using lt by simp
    show ?thesis
    proof (cases "tile = Some ROAD")
      case notroad: False
      from "1.IH"(2)[OF lt refl refl tile notroad rows rnd] more
      obtain p k' where
        "getRandomRoadPositionLoop (attempts + 1) m sz av rnd (k + 2) = Returns (p, k')"
        "k' \<le> k + 2 + 2 * (1000 - (attempts + 1))"
        "p = \<lparr>vx = 64, vy = 64\<rparr> \<or> roadSpot m p \<and> isWalkable p sz m = Returns True
            \<and> \<not> list_ex (checkCollision \<lparr>pos = p, esize = sz\<rparr>) av" by auto
      with lt tile notroad show ?thesis
        by (subst getRandomRoadPositionLoop.simps) (auto simp: Let_def)
    next
      case road: True
      show ?thesis
      proof (cases "w \<and> \<not> list_ex (checkCollision \<lparr>pos = ?p, esize = sz\<rparr>) av")
        case good: True
        have spot: "roadSpot m ?p"
          using tx ty tile road by (simp add: roadSpot_def Let_def floor_spot)
        from good w spot lt tile road show ?thesis
          by (subst getRandomRoadPositionLoop.simps) (auto simp: Let_def)
      next
        case bad: False
        from "1.IH"(1)[OF lt refl refl tile road refl w bad rows rnd] more
        obtain p k' where
          "getRandomRoadPositionLoop (attempts + 1) m sz av rnd (k + 2) = Returns (p, k')"
          "k' \<le> k + 2 + 2 * (1000 - (attempts + 1))"
          "p = \<lparr>vx = 64, vy = 64\<rparr> \<or> roadSpot m p \<and> isWalkable p sz m = Returns True
              \<and> \<not> list_ex (checkCollision \<lparr>pos = p, esize = sz\<rparr>) av" by auto
        with lt tile road w bad show ?thesis
          by (subst getRandomRoadPositionLoop.simps) (auto simp: Let_def)
      qed
    qed
  qed
qed

text \<open>
  Claim C10. On the maps the function is called on (every map that \<^verbatim>\<open>initGame\<close>
  generates has \<^verbatim>\<open>MAP_HEIGHT\<close> rows; the theorem asks for no less and nothing else
  of the map), for every entity size and avoid list and with draws in \<open>[0, 1)\<close>,
  \<^verbatim>\<open>getRandomRoadPosition\<close> returns after at most 1000 attempts (2000 draws): either
  the fallback \<open>(64, 64)\<close>, or a position on a ROAD tile that is walkable for the entity
  and overlaps no entity of the avoid list. It neither throws nor runs on.
\<close>

theorem getRandomRoadPosition_total:
  assumes "MAP_HEIGHT \<le> int (length m)" and "validRandom rnd"
  shows "\<exists>p k'. getRandomRoadPosition m sz av rnd k = Returns (p, k')
       \<and> k' \<le> k + 2000
       \<and> (p = \<lparr>vx = 64, vy = 64\<rparr>
          \<or> roadSpot m p \<and> isWalkable p sz m = Returns True
            \<and> \<not> list_ex (checkCollision \<lparr>pos = p, esize = sz\<rparr>) av)"
  using getRandomRoadPositionLoop_total[OF assms, of 0 sz av k]
  by (simp add: getRandomRoadPosition_def)

theorem getRandomRoadPosition_total_witness:
  "MAP_HEIGHT \<le> int (length allRoad) \<and> validRandom zeroStream
   \<and> (\<exists>p k'. getRandomRoadPosition allRoad \<lparr>vx = 16, vy = 16\<rparr> ([] :: Entity list) zeroStream 0
                 = Returns (p, k')
        \<and> k' \<le> 0 + 2000
        \<and> (p = \<lparr>vx = 64, vy = 64\<rparr>
           \<or> roadSpot allRoad p \<and> isWalkable p \<lparr>vx = 16, vy = 16\<rparr> allRoad = Returns True
             \<and> \<not> list_ex (checkCollision \<lparr>pos = p, esize = \<lparr>vx = 16, vy = 16\<rparr>\<rparr>) ([] :: Entity list)))"
proof -
  have a: "MAP_HEIGHT \<le> int (length allRoad)" by (simp add: allRoad_def)
  have b: "validRandom zeroStream" by (simp add: validRandom_def zeroStream_def)
  show ?thesis
    using a b getRandomRoadPosition_total[OF a b, of "\<lparr>vx = 16, vy = 16\<rparr>" "[] :: Entity list" 0]
    by simp
qed

subsection \<open>The round invariant\<close>

lemma obind_Returns:
  "obind r f = Returns b \<longleftrightarrow> (\<exists>a. r = Returns a \<and> f a = Returns b)"
  by (cases r) (simp_all add: obind_def)

lemma takeHit_cases:
  assumes "running s" "takeHit ev s = (s', ret)"
  shows "if ret then overHealth s' else running s'"
  using assms
  by (auto simp: takeHit_def Let_def running_def overHealth_def split: if_splits)

lemma activateCar_core: "activateCar rnd s = Returns s' \<Longrightarrow> coreSame s s'"
  by (auto simp: activateCar_def Let_def obind_Returns coreSame_def split: if_splits)

lemma spawnPhase_core: "spawnPhase rnd s = Returns s' \<Longrightarrow> coreSame s s'"
  by (auto simp: spawnPhase_def Let_def coreSame_def dest!: activateCar_core split: if_splits)

lemma powerupSpawn_core: "powerupSpawn rnd s = Returns s' \<Longrightarrow> coreSame s s'"
  by (auto simp: powerupSpawn_def Let_def obind_Returns coreSame_def split: if_splits)

lemma coreSame_running: "coreSame s s' \<Longrightarrow> running s' = running s"
  by (simp add: coreSame_def running_def)

lemma moveSound_running: "running (moveSound now inp s) = running s"
  by (simp add: moveSound_def running_def split: prod.splits)

lemma facePlayer_health:
  "health (facePlayer inp p) = health p" "maxHealth (facePlayer inp p) = maxHealth p"
  by (simp_all add: facePlayer_def Let_def)

lemma boostStart_running: "running (boostStart inp s) = running s"
  by (simp add: boostStart_def Let_def running_def)

lemma boostTick_health:
  "health (boostTick dt p) = health p" "maxHealth (boostTick dt p) = maxHealth p"
  by (simp_all add: boostTick_def Let_def)

lemma playerControl_running: "running (playerControl dt now inp s) = running s"
proof -
  have a: "running (s'\<lparr>player := p\<rparr>) = running s'"
    if "health p = health (player s')" "maxHealth p = maxHealth (player s')" for s' p
    using that by (simp add: running_def)
  show ?thesis
    by (simp add: playerControl_def Let_def a boostTick_health facePlayer_health
        boostStart_running moveSound_running)
qed

lemma movePlayer_running: "movePlayer dx dy s = Returns s' \<Longrightarrow> running s' = running s"
  by (auto simp: movePlayer_def Let_def obind_Returns running_def split: if_splits)

lemma puddleCheck_cases:
  assumes "running s" "puddleCheck s = (s', ret)"
  shows "if ret then overHealth s' else running s'"
  using assms takeHit_cases[of s Splash s' ret]
  by (auto simp: puddleCheck_def Let_def split: if_splits)

lemma playerPhase_cases:
  assumes "running s" "playerPhase dt now inp s = Returns (s', ret)"
  shows "if ret then overHealth s' else running s'"
proof (cases "stunned (player s) > 0")
  case True
  with assms show ?thesis by (auto simp: playerPhase_def running_def)
next
  case False
  with assms(2) obtain dx dy s1 where
    mv: "movePlayer dx dy (playerControl dt now inp s) = Returns s1"
    and pc: "puddleCheck s1 = (s', ret)"
    by (auto simp: playerPhase_def obind_Returns split: prod.splits)
  from movePlayer_running[OF mv] assms(1) have "running s1" by (simp add: playerControl_running)
  from puddleCheck_cases[OF this pc] show ?thesis .
qed

lemma timersPhase_running: "running (timersPhase dt s) = running s"
  by (simp add: timersPhase_def Let_def running_def)

lemma coreSame_rng: "coreSame s (s\<lparr>rngIndex := k\<rparr>)"
  by (simp add: coreSame_def)

lemma coreSame_rng2: "coreSame s (s\<lparr>rngIndex := k, rngIndex := k'\<rparr>)"
  by (simp add: coreSame_def)

lemma carTurn_core:
  "carTurn rnd s car tileX tileY tcx tcy = Returns (c', s', fl) \<Longrightarrow> coreSame s s'"
  by (auto simp: carTurn_def Let_def obind_def coreSame_rng coreSame_rng2
      split: option.splits if_splits prod.splits outcome.splits)
lemma deliveryLogic_running:
  assumes "running s" "deliveryLogic now rnd s = Returns s'"
  shows "running s'"
  using assms
  by (auto simp: deliveryLogic_def Let_def running_def split: if_splits option.splits
      dest!: activateCar_core simp: coreSame_def)

lemma carAdvance_cases:
  assumes "running s" "carAdvance car s = (c', s', ret)"
  shows "if ret then overHealth s' else running s'"
proof (cases "takeHit Hit s")
  case (Pair s1 r1)
  from takeHit_cases[OF assms(1) Pair] assms Pair show ?thesis
    by (auto simp: carAdvance_def Let_def split: if_splits)
qed

lemma carMerging_cases:
  assumes "running s" "carMerging s car = Returns (c', s', ret)"
  shows "if ret then overHealth s' else running s'"
proof (cases "takeHit Hit s")
  case (Pair s1 r1)
  from takeHit_cases[OF assms(1) Pair] assms Pair show ?thesis
    by (auto simp: carMerging_def Let_def obind_Returns split: if_splits)
qed

lemma carDriving_cases:
  assumes "running s" "carDriving rnd s car = Returns (c', s', ret)"
  shows "if ret then overHealth s' else running s'"
  using assms
  by (auto simp: carDriving_def Let_def obind_Returns coreSame_running
      split: if_splits dest!: carTurn_core dest: carAdvance_cases[rotated])

lemma carStep_cases:
  assumes "running s" "carStep dt rnd s car = Returns (c', s', ret)"
  shows "if ret then overHealth s' else running s'"
  using assms carMerging_cases[OF assms(1), of car c' s' ret]
    carDriving_cases[OF assms(1), of rnd car c' s' ret]
  by (auto simp: carStep_def obind_Returns split: if_splits)

lemma carLoop_cases:
  "running s \<Longrightarrow> carLoop dt rnd cs s = Returns (cs', s', ret)
     \<Longrightarrow> if ret then overHealth s' else running s'"
proof (induction cs arbitrary: s cs')
  case Nil
  then show ?case by simp
next
  case (Cons car rest)
  from Cons.prems(2) obtain c1 s1 r1 where st: "carStep dt rnd s car = Returns (c1, s1, r1)"
    by (auto split: outcome.splits)
  from carStep_cases[OF Cons.prems(1) st] have one: "if r1 then overHealth s1 else running s1" .
  show ?case
  proof (cases r1)
    case True
    with Cons.prems(2) st one show ?thesis by auto
  next
    case False
    with Cons.prems(2) st obtain rest1 where
      "carLoop dt rnd rest s1 = Returns (rest1, s', ret)"
      by (auto split: outcome.splits)
    from Cons.IH[OF _ this] one False show ?thesis by simp
  qed
qed

lemma overHealth_cars: "overHealth (s\<lparr>cars := cs\<rparr>) = overHealth s"
  and running_cars: "running (s\<lparr>cars := cs\<rparr>) = running s"
  by (simp_all add: overHealth_def running_def)

lemma carPhase_cases:
  assumes "running s" "carPhase dt rnd s = Returns (s', ret)"
  shows "if ret then overHealth s' else running s'"
  using assms carLoop_cases[OF assms(1)]
  by (auto simp: carPhase_def obind_Returns overHealth_cars running_cars split: if_splits)

lemma applyPowerup_running: "running s \<Longrightarrow> running (applyPowerup k s)"
  by (auto simp: applyPowerup_def running_def split: option.splits PowerUpType.splits)

lemma running_audioLog: "running (s\<lparr>audioLog := l\<rparr>) = running s"
  by (simp add: running_def)

lemma powerupLoop_running:
  "running s \<Longrightarrow> powerupLoop dt pups s = (kept, s') \<Longrightarrow> running s'"
proof (induction pups arbitrary: s kept)
  case Nil
  then show ?case by simp
next
  case (Cons pup pups)
  let ?pup1 = "pup\<lparr>life := map_option (\<lambda>l. l - dt) (life pup)\<rparr>"
  show ?case
  proof (cases "case life ?pup1 of Some l \<Rightarrow> l \<le> 0 | None \<Rightarrow> False")
    case True
    with Cons.prems(2) have "powerupLoop dt pups s = (kept, s')" by (simp add: Let_def)
    from Cons.IH[OF Cons.prems(1) this] show ?thesis .
  next
    case alive: False
    show ?thesis
    proof (cases "checkCollision (player s) ?pup1")
      case True
      let ?s1 = "applyPowerup (kind ?pup1) (s\<lparr>audioLog := audioLog s @ [Powerup]\<rparr>)"
      from True alive Cons.prems(2) have "powerupLoop dt pups ?s1 = (kept, s')"
        by (simp add: Let_def)
      moreover have "running ?s1"
        using Cons.prems(1) by (intro applyPowerup_running) (simp add: running_audioLog)
      ultimately show ?thesis by (rule Cons.IH[rotated])
    next
      case False
      with alive Cons.prems(2) obtain kept1 where "powerupLoop dt pups s = (kept1, s')"
        by (auto simp: Let_def split: prod.splits)
      from Cons.IH[OF Cons.prems(1) this] show ?thesis .
    qed
  qed
qed

lemma running_powerups: "running (s\<lparr>powerups := k\<rparr>) = running s"
  by (simp add: running_def)

lemma powerupPhase_running: "running s \<Longrightarrow> running (powerupPhase dt s)"
  by (auto simp: powerupPhase_def Let_def running_powerups split: prod.splits
      dest: powerupLoop_running)

lemma startRound_running: "running (startRound g now prev)"
  by (simp add: startRound_def running_def)

lemma obind_ReturnsE:
  assumes "obind r f = Returns b"
  obtains a where "r = Returns a" "f a = Returns b"
  using assms by (cases r) (simp_all add: obind_def)

lemma update_chain:
  assumes upd: "update dt now inp rnd s = Returns s'"
    and play: "isPlaying s" "\<not> isGameOver s" and pos: "timer s - dt > 0"
  shows "\<exists>s3 s4 s5 ret.
    spawnPhase rnd (pauseTick dt s) = Returns s3
    \<and> powerupSpawn rnd s3 = Returns s4
    \<and> playerPhase dt now inp s4 = Returns (s5, ret)
    \<and> (if ret then s' = s5
       else (\<exists>s6 s7 ret2. deliveryLogic now rnd (timersPhase dt s5) = Returns s6
               \<and> carPhase dt rnd s6 = Returns (s7, ret2)
               \<and> s' = (if ret2 then s7 else powerupPhase dt s7)))"
proof -
  have s2: "(if trafficPauseTimer (s\<lparr>timer := timer s - dt\<rparr>) > 0
             then s\<lparr>timer := timer s - dt\<rparr>\<lparr>trafficPauseTimer :=
                     trafficPauseTimer (s\<lparr>timer := timer s - dt\<rparr>) - dt\<rparr>
             else s\<lparr>timer := timer s - dt\<rparr>) = pauseTick dt s"
    by (simp add: pauseTick_def)
  from upd play pos have
    "obind (spawnPhase rnd (pauseTick dt s)) (\<lambda>s3.
       obind (powerupSpawn rnd s3) (\<lambda>s4.
       obind (playerPhase dt now inp s4) (\<lambda>(s5, ret).
         if ret then Returns s5
         else
           obind (deliveryLogic now rnd (timersPhase dt s5)) (\<lambda>s6.
           obind (carPhase dt rnd s6) (\<lambda>(s7, ret2).
             if ret2 then Returns s7 else Returns (powerupPhase dt s7)))))) = Returns s'"
    unfolding update_def Let_def s2 by simp
  then obtain s3 s4 r where c3: "spawnPhase rnd (pauseTick dt s) = Returns s3"
    and c4: "powerupSpawn rnd s3 = Returns s4"
    and c5: "playerPhase dt now inp s4 = Returns r"
    and rest: "(case r of (s5, ret) \<Rightarrow>
         if ret then Returns s5
         else
           obind (deliveryLogic now rnd (timersPhase dt s5)) (\<lambda>s6.
           obind (carPhase dt rnd s6) (\<lambda>(s7, ret2).
             if ret2 then Returns s7 else Returns (powerupPhase dt s7)))) = Returns s'"
    by (elim obind_ReturnsE) blast
  obtain s5 ret where r: "r = (s5, ret)" by (cases r)
  show ?thesis
  proof (cases ret)
    case True
    with rest r c3 c4 c5 show ?thesis by auto
  next
    case False
    with rest r have
      "obind (deliveryLogic now rnd (timersPhase dt s5)) (\<lambda>s6.
         obind (carPhase dt rnd s6) (\<lambda>(s7, ret2).
           if ret2 then Returns s7 else Returns (powerupPhase dt s7))) = Returns s'" by simp
    then obtain s6 r2 where d: "deliveryLogic now rnd (timersPhase dt s5) = Returns s6"
      and c: "carPhase dt rnd s6 = Returns r2"
      and fin: "(case r2 of (s7, ret2) \<Rightarrow>
           if ret2 then Returns s7 else Returns (powerupPhase dt s7)) = Returns s'"
      by (elim obind_ReturnsE) blast
    obtain s7 ret2 where r2: "r2 = (s7, ret2)" by (cases r2)
    from fin r2 have "s' = (if ret2 then s7 else powerupPhase dt s7)" by (auto split: if_splits)
    with False r c3 c4 c5 d c r2 show ?thesis by auto
  qed
qed

lemma update_roundInv:
  assumes inv: "roundInv s" and dt: "dt \<le> 1 / 10"
    and upd: "update dt now inp rnd s = Returns s'"
  shows "roundInv s'"
proof (cases "\<not> isPlaying s \<or> isGameOver s")
  case True
  with upd inv show ?thesis by (simp add: update_def)
next
  case False
  with inv have run: "running s"
    by (auto simp: roundInv_def overHealth_def overTimeout_def)
  show ?thesis
  proof (cases "timer s - dt \<le> 0")
    case True
    with False upd have "s' = s\<lparr>timer := timer s - dt, isGameOver := True, gameOverReason := ''TIMEOUT''\<rparr>"
      by (simp add: update_def Let_def)
    with run True dt show ?thesis
      by (simp add: roundInv_def overTimeout_def running_def)
  next
    case pos: False
    have "0 < timer s - dt" using pos by simp
    from update_chain[OF upd _ _ this] False obtain s3 s4 s5 ret where
      c3: "spawnPhase rnd (pauseTick dt s) = Returns s3"
      and c4: "powerupSpawn rnd s3 = Returns s4"
      and c5: "playerPhase dt now inp s4 = Returns (s5, ret)"
      and fin: "if ret then s' = s5
       else (\<exists>s6 s7 ret2. deliveryLogic now rnd (timersPhase dt s5) = Returns s6
               \<and> carPhase dt rnd s6 = Returns (s7, ret2)
               \<and> s' = (if ret2 then s7 else powerupPhase dt s7))"
      by blast
    from run pos dt have "running (pauseTick dt s)" by (simp add: running_def pauseTick_def)
    with spawnPhase_core[OF c3] have "running s3" by (simp add: coreSame_running)
    with powerupSpawn_core[OF c4] have r4: "running s4" by (simp add: coreSame_running)
    note p5 = playerPhase_cases[OF r4 c5]
    show ?thesis
    proof (cases ret)
      case True
      with p5 fin show ?thesis by (simp add: roundInv_def)
    next
      case nr: False
      with p5 have "running (timersPhase dt s5)" by (simp add: timersPhase_running)
      moreover from fin nr obtain s6 s7 ret2 where
        d: "deliveryLogic now rnd (timersPhase dt s5) = Returns s6"
        and c: "carPhase dt rnd s6 = Returns (s7, ret2)"
        and fin2: "s' = (if ret2 then s7 else powerupPhase dt s7)" by auto
      ultimately have "running s6" using deliveryLogic_running by blast
      note c7 = carPhase_cases[OF this c]
      show ?thesis
      proof (cases ret2)
        case True
        with c7 fin2 show ?thesis by (simp add: roundInv_def)
      next
        case False
        with c7 fin2 show ?thesis by (simp add: roundInv_def powerupPhase_running)
      qed
    qed
  qed
qed

lemma loopDt_clamped: "loopDt time lastTime \<le> 1 / 10"
  by (simp add: loopDt_def)

lemma loopDt_bounds: "lastTime \<le> time \<Longrightarrow> 0 \<le> loopDt time lastTime \<and> loopDt time lastTime \<le> 1 / 10"
  by (simp add: loopDt_def)

lemma reachable_roundInv: "reachable s \<Longrightarrow> roundInv s"
proof (induction rule: reachable.induct)
  case (start placed rnd k g now prev)
  show ?case by (simp add: roundInv_def startRound_running)
next
  case (tick s time lastTime now inp rnd s')
  from update_roundInv[OF tick.IH loopDt_clamped tick.hyps(2)] show ?case .
qed

lemma forward_reachable: "reachableForward s \<Longrightarrow> reachable s"
  by (induction rule: reachableForward.induct) (auto intro: reachable.intros)

subsection \<open>What the phases leave alone\<close>

lemma update_cases:
  assumes upd: "update dt now inp rnd s = Returns s'"
  shows "(s' = s \<and> (\<not> isPlaying s \<or> isGameOver s))
       \<or> s' = s\<lparr>timer := timer s - dt, isGameOver := True, gameOverReason := ''TIMEOUT''\<rparr>
       \<or> (isPlaying s \<and> \<not> isGameOver s \<and> 0 < timer s - dt
          \<and> (\<exists>s3 s4 s5 ret.
                spawnPhase rnd (pauseTick dt s) = Returns s3
                \<and> powerupSpawn rnd s3 = Returns s4
                \<and> playerPhase dt now inp s4 = Returns (s5, ret)
                \<and> (if ret then s' = s5
                   else (\<exists>s6 s7 ret2. deliveryLogic now rnd (timersPhase dt s5) = Returns s6
                           \<and> carPhase dt rnd s6 = Returns (s7, ret2)
                           \<and> s' = (if ret2 then s7 else powerupPhase dt s7)))))"
proof (cases "\<not> isPlaying s \<or> isGameOver s")
  case True
  with upd show ?thesis by (simp add: update_def)
next
  case False
  show ?thesis
  proof (cases "timer s - dt \<le> 0")
    case True
    with False upd show ?thesis by (simp add: update_def Let_def)
  next
    case pos: False
    then have "0 < timer s - dt" by simp
    from update_chain[OF upd _ _ this] False this show ?thesis by simp
  qed
qed

lemma lotSame_refl: "lotSame s s" and posSame_refl: "posSame s s"
  by (simp_all add: lotSame_def posSame_def)

lemma lotSame_trans: "lotSame a b \<Longrightarrow> lotSame b c \<Longrightarrow> lotSame a c"
  and posSame_trans: "posSame a b \<Longrightarrow> posSame b c \<Longrightarrow> posSame a c"
  by (simp_all add: lotSame_def posSame_def)

lemma coreSame_lot: "coreSame s s' \<Longrightarrow> lotSame s s' \<and> posSame s s'"
  by (simp add: coreSame_def lotSame_def posSame_def)

lemma takeHit_lot: "takeHit ev s = (s', ret) \<Longrightarrow> lotSame s s' \<and> posSame s s'"
  by (auto simp: takeHit_def Let_def lotSame_def posSame_def split: if_splits)

lemma moveSound_lot: "lotSame s (moveSound now inp s) \<and> posSame s (moveSound now inp s)"
  by (simp add: moveSound_def lotSame_def posSame_def split: prod.splits)

lemma facePlayer_place: "pos (facePlayer inp p) = pos p" "esize (facePlayer inp p) = esize p"
  by (simp_all add: facePlayer_def Let_def)

lemma boostTick_place: "pos (boostTick dt p) = pos p" "esize (boostTick dt p) = esize p"
  by (simp_all add: boostTick_def Let_def)

lemma boostStart_lot: "lotSame s (boostStart inp s) \<and> posSame s (boostStart inp s)"
  by (simp add: boostStart_def Let_def lotSame_def posSame_def)

lemma playerControl_lot:
  "lotSame s (playerControl dt now inp s) \<and> posSame s (playerControl dt now inp s)"
proof -
  have a: "lotSame s' (s'\<lparr>player := p\<rparr>) \<and> posSame s' (s'\<lparr>player := p\<rparr>)"
    if "pos p = pos (player s')" "esize p = esize (player s')" for s' p
    using that by (simp add: lotSame_def posSame_def)
  let ?s1 = "moveSound now inp s"
  let ?s2 = "?s1\<lparr>player := facePlayer inp (player ?s1)\<rparr>"
  let ?s3 = "boostStart inp ?s2"
  let ?s4 = "?s3\<lparr>player := boostTick dt (player ?s3)\<rparr>"
  have 1: "lotSame s ?s1 \<and> posSame s ?s1" by (rule moveSound_lot)
  have 2: "lotSame ?s1 ?s2 \<and> posSame ?s1 ?s2" by (rule a) (simp_all add: facePlayer_place)
  have 3: "lotSame ?s2 ?s3 \<and> posSame ?s2 ?s3" by (rule boostStart_lot)
  have 4: "lotSame ?s3 ?s4 \<and> posSame ?s3 ?s4" by (rule a) (simp_all add: boostTick_place)
  from 1 2 3 4 have "lotSame s ?s4 \<and> posSame s ?s4"
    by (meson lotSame_trans posSame_trans)
  then show ?thesis by (simp add: playerControl_def Let_def)
qed

lemma movePlayer_lot: "movePlayer dx dy s = Returns s' \<Longrightarrow> lotSame s s'"
  by (auto simp: movePlayer_def Let_def obind_def lotSame_def split: if_splits outcome.splits)

lemma puddleCheck_lot: "puddleCheck s = (s', ret) \<Longrightarrow> lotSame s s' \<and> posSame s s'"
  using takeHit_lot[of Splash s s' ret]
  by (auto simp: puddleCheck_def Let_def lotSame_refl posSame_refl split: if_splits)

lemma playerPhase_lot: "playerPhase dt now inp s = Returns (s', ret) \<Longrightarrow> lotSame s s'"
proof (cases "stunned (player s) > 0")
  case True
  assume "playerPhase dt now inp s = Returns (s', ret)"
  with True show ?thesis by (auto simp: playerPhase_def lotSame_def)
next
  case False
  assume "playerPhase dt now inp s = Returns (s', ret)"
  with False obtain dx dy s1 where
    mv: "movePlayer dx dy (playerControl dt now inp s) = Returns s1"
    and pc: "puddleCheck s1 = (s', ret)"
    by (auto simp: playerPhase_def obind_Returns split: prod.splits)
  from movePlayer_lot[OF mv] puddleCheck_lot[OF pc] playerControl_lot[of s dt now inp]
  show ?thesis by (meson lotSame_trans)
qed

lemma timersPhase_lot: "lotSame s (timersPhase dt s) \<and> posSame s (timersPhase dt s)"
  by (simp add: timersPhase_def Let_def lotSame_def posSame_def)

lemma carAdvance_lot: "carAdvance car s = (c', s', ret) \<Longrightarrow> lotSame s s' \<and> posSame s s'"
proof (cases "takeHit Hit s")
  case (Pair s1 r1)
  assume "carAdvance car s = (c', s', ret)"
  with takeHit_lot[OF Pair] Pair show ?thesis
    by (auto simp: carAdvance_def Let_def lotSame_refl posSame_refl split: if_splits)
qed

lemma carMerging_lot: "carMerging s car = Returns (c', s', ret) \<Longrightarrow> lotSame s s' \<and> posSame s s'"
proof (cases "takeHit Hit s")
  case (Pair s1 r1)
  assume "carMerging s car = Returns (c', s', ret)"
  with takeHit_lot[OF Pair] Pair show ?thesis
    by (auto simp: carMerging_def Let_def obind_Returns lotSame_refl posSame_refl split: if_splits)
qed

lemma carDriving_lot: "carDriving rnd s car = Returns (c', s', ret) \<Longrightarrow> lotSame s s' \<and> posSame s s'"
  by (auto simp: carDriving_def Let_def obind_Returns lotSame_refl posSame_refl
      split: if_splits dest!: carTurn_core coreSame_lot carAdvance_lot
      intro: lotSame_trans posSame_trans)

lemma carStep_lot: "carStep dt rnd s car = Returns (c', s', ret) \<Longrightarrow> lotSame s s' \<and> posSame s s'"
  using carMerging_lot[of s car c' s' ret] carDriving_lot[of rnd s car c' s' ret]
  by (auto simp: carStep_def obind_Returns lotSame_refl posSame_refl split: if_splits)

lemma carLoop_lot:
  "carLoop dt rnd cs s = Returns (cs', s', ret) \<Longrightarrow> lotSame s s' \<and> posSame s s'"
proof (induction cs arbitrary: s cs')
  case Nil
  then show ?case by (simp add: lotSame_refl posSame_refl)
next
  case (Cons car rest)
  from Cons.prems obtain c1 s1 r1 where st: "carStep dt rnd s car = Returns (c1, s1, r1)"
    by (auto split: outcome.splits)
  note one = carStep_lot[OF st]
  show ?case
  proof (cases r1)
    case True
    with Cons.prems st one show ?thesis by auto
  next
    case False
    with Cons.prems st obtain rest1 where
      "carLoop dt rnd rest s1 = Returns (rest1, s', ret)"
      by (auto split: outcome.splits)
    from Cons.IH[OF this] one show ?thesis by (meson lotSame_trans posSame_trans)
  qed
qed

lemma carPhase_lot: "carPhase dt rnd s = Returns (s', ret) \<Longrightarrow> lotSame s s' \<and> posSame s s'"
proof -
  assume "carPhase dt rnd s = Returns (s', ret)"
  then obtain cs s1 where l: "carLoop dt rnd (cars s) s = Returns (cs, s1, ret)"
    and e: "s' = s1\<lparr>cars := cs\<rparr>"
    by (auto simp: carPhase_def obind_Returns)
  from carLoop_lot[OF l] e show ?thesis by (simp add: lotSame_def posSame_def)
qed

lemma applyPowerup_lot: "lotSame s (applyPowerup k s) \<and> posSame s (applyPowerup k s)"
  by (auto simp: applyPowerup_def lotSame_def posSame_def split: option.splits PowerUpType.splits)

lemma powerupLoop_lot:
  "powerupLoop dt pups s = (kept, s') \<Longrightarrow> lotSame s s' \<and> posSame s s'"
proof (induction pups arbitrary: s kept)
  case Nil
  then show ?case by (simp add: lotSame_refl posSame_refl)
next
  case (Cons pup pups)
  let ?pup1 = "pup\<lparr>life := map_option (\<lambda>l. l - dt) (life pup)\<rparr>"
  show ?case
  proof (cases "case life ?pup1 of Some l \<Rightarrow> l \<le> 0 | None \<Rightarrow> False")
    case True
    with Cons.prems have "powerupLoop dt pups s = (kept, s')" by (simp add: Let_def)
    from Cons.IH[OF this] show ?thesis .
  next
    case alive: False
    show ?thesis
    proof (cases "checkCollision (player s) ?pup1")
      case True
      let ?s0 = "s\<lparr>audioLog := audioLog s @ [Powerup]\<rparr>"
      let ?s1 = "applyPowerup (kind ?pup1) ?s0"
      from True alive Cons.prems have "powerupLoop dt pups ?s1 = (kept, s')"
        by (simp add: Let_def)
      from Cons.IH[OF this] have "lotSame ?s1 s' \<and> posSame ?s1 s'" .
      moreover have "lotSame ?s0 ?s1 \<and> posSame ?s0 ?s1" by (rule applyPowerup_lot)
      moreover have "lotSame s ?s0 \<and> posSame s ?s0" by (simp add: lotSame_def posSame_def)
      ultimately show ?thesis by (meson lotSame_trans posSame_trans)
    next
      case False
      with alive Cons.prems obtain kept1 where "powerupLoop dt pups s = (kept1, s')"
        by (auto simp: Let_def split: prod.splits)
      from Cons.IH[OF this] show ?thesis .
    qed
  qed
qed

lemma powerupPhase_lot: "lotSame s (powerupPhase dt s) \<and> posSame s (powerupPhase dt s)"
proof (cases "powerupLoop dt (powerups s) s")
  case (Pair kept s1)
  from powerupLoop_lot[OF Pair] Pair show ?thesis
    by (simp add: powerupPhase_def lotSame_def posSame_def)
qed

lemma tallySame_refl: "tallySame s s"
  by (simp add: tallySame_def)

lemma tallySame_trans: "tallySame a b \<Longrightarrow> tallySame b c \<Longrightarrow> tallySame a c"
  by (simp add: tallySame_def)

lemma coreSame_tally: "coreSame s s' \<Longrightarrow> tallySame s s'"
  by (simp add: coreSame_def tallySame_def)

lemma takeHit_tally: "takeHit ev s = (s', ret) \<Longrightarrow> tallySame s s'"
  by (auto simp: takeHit_def Let_def tallySame_def split: if_splits)

lemma moveSound_tally: "tallySame s (moveSound now inp s)"
  by (simp add: moveSound_def tallySame_def split: prod.splits)

lemma boostStart_tally: "tallySame s (boostStart inp s)"
  by (simp add: boostStart_def Let_def tallySame_def)

lemma playerControl_tally: "tallySame s (playerControl dt now inp s)"
proof -
  have a: "tallySame s' (s'\<lparr>player := p\<rparr>)" for s' p
    by (simp add: tallySame_def)
  let ?s1 = "moveSound now inp s"
  let ?s2 = "?s1\<lparr>player := facePlayer inp (player ?s1)\<rparr>"
  let ?s3 = "boostStart inp ?s2"
  let ?s4 = "?s3\<lparr>player := boostTick dt (player ?s3)\<rparr>"
  have 1: "tallySame s ?s1" by (rule moveSound_tally)
  have 2: "tallySame ?s1 ?s2" by (rule a)
  have 3: "tallySame ?s2 ?s3" by (rule boostStart_tally)
  have 4: "tallySame ?s3 ?s4" by (rule a)
  from 1 2 3 4 have "tallySame s ?s4" by (meson tallySame_trans)
  then show ?thesis by (simp add: playerControl_def Let_def)
qed

lemma movePlayer_tally: "movePlayer dx dy s = Returns s' \<Longrightarrow> tallySame s s'"
  by (auto simp: movePlayer_def Let_def obind_def tallySame_def split: if_splits outcome.splits)

lemma puddleCheck_tally: "puddleCheck s = (s', ret) \<Longrightarrow> tallySame s s'"
  using takeHit_tally[of Splash s s' ret]
  by (auto simp: puddleCheck_def Let_def tallySame_refl split: if_splits)

lemma playerPhase_tally: "playerPhase dt now inp s = Returns (s', ret) \<Longrightarrow> tallySame s s'"
proof (cases "stunned (player s) > 0")
  case True
  assume "playerPhase dt now inp s = Returns (s', ret)"
  with True show ?thesis by (auto simp: playerPhase_def tallySame_def)
next
  case False
  assume "playerPhase dt now inp s = Returns (s', ret)"
  with False obtain dx dy s1 where
    mv: "movePlayer dx dy (playerControl dt now inp s) = Returns s1"
    and pc: "puddleCheck s1 = (s', ret)"
    by (auto simp: playerPhase_def obind_Returns split: prod.splits)
  from movePlayer_tally[OF mv] puddleCheck_tally[OF pc] playerControl_tally[of s dt now inp]
  show ?thesis by (meson tallySame_trans)
qed

lemma timersPhase_tally: "tallySame s (timersPhase dt s)"
  by (simp add: timersPhase_def Let_def tallySame_def)

lemma carAdvance_tally: "carAdvance car s = (c', s', ret) \<Longrightarrow> tallySame s s'"
proof (cases "takeHit Hit s")
  case (Pair s1 r1)
  assume "carAdvance car s = (c', s', ret)"
  with takeHit_tally[OF Pair] Pair show ?thesis
    by (auto simp: carAdvance_def Let_def tallySame_refl split: if_splits)
qed

lemma carMerging_tally: "carMerging s car = Returns (c', s', ret) \<Longrightarrow> tallySame s s'"
proof (cases "takeHit Hit s")
  case (Pair s1 r1)
  assume "carMerging s car = Returns (c', s', ret)"
  with takeHit_tally[OF Pair] Pair show ?thesis
    by (auto simp: carMerging_def Let_def obind_Returns tallySame_refl split: if_splits)
qed

lemma carDriving_tally: "carDriving rnd s car = Returns (c', s', ret) \<Longrightarrow> tallySame s s'"
  by (auto simp: carDriving_def Let_def obind_Returns tallySame_refl
      split: if_splits dest!: carTurn_core coreSame_tally carAdvance_tally
      intro: tallySame_trans)

lemma carStep_tally: "carStep dt rnd s car = Returns (c', s', ret) \<Longrightarrow> tallySame s s'"
  using carMerging_tally[of s car c' s' ret] carDriving_tally[of rnd s car c' s' ret]
  by (auto simp: carStep_def obind_Returns tallySame_refl split: if_splits)

lemma carLoop_tally:
  "carLoop dt rnd cs s = Returns (cs', s', ret) \<Longrightarrow> tallySame s s'"
proof (induction cs arbitrary: s cs')
  case Nil
  then show ?case by (simp add: tallySame_refl)
next
  case (Cons car rest)
  from Cons.prems obtain c1 s1 r1 where st: "carStep dt rnd s car = Returns (c1, s1, r1)"
    by (auto split: outcome.splits)
  note one = carStep_tally[OF st]
  show ?case
  proof (cases r1)
    case True
    with Cons.prems st one show ?thesis by auto
  next
    case False
    with Cons.prems st obtain rest1 where
      "carLoop dt rnd rest s1 = Returns (rest1, s', ret)"
      by (auto split: outcome.splits)
    from Cons.IH[OF this] one show ?thesis by (meson tallySame_trans)
  qed
qed

lemma carPhase_tally: "carPhase dt rnd s = Returns (s', ret) \<Longrightarrow> tallySame s s'"
proof -
  assume "carPhase dt rnd s = Returns (s', ret)"
  then obtain cs s1 where l: "carLoop dt rnd (cars s) s = Returns (cs, s1, ret)"
    and e: "s' = s1\<lparr>cars := cs\<rparr>"
    by (auto simp: carPhase_def obind_Returns)
  from carLoop_tally[OF l] e show ?thesis by (simp add: tallySame_def)
qed

text \<open>The power-ups add to the clock, up to its cap, and leave the score alone.\<close>

lemma applyPowerup_clock:
  "timer s \<le> timer (applyPowerup k s) \<or> timer (applyPowerup k s) = INITIAL_TIME"
  "timer s \<le> INITIAL_TIME \<Longrightarrow> timer (applyPowerup k s) \<le> INITIAL_TIME"
  "score (applyPowerup k s) = score s"
  by (auto simp: applyPowerup_def split: option.splits PowerUpType.splits)

lemma powerupLoop_clock:
  "timer s \<le> INITIAL_TIME \<Longrightarrow> powerupLoop dt pups s = (kept, s') \<Longrightarrow>
     timer s \<le> timer s' \<and> timer s' \<le> INITIAL_TIME \<and> score s' = score s"
proof (induction pups arbitrary: s kept)
  case Nil
  then show ?case by simp
next
  case (Cons pup pups)
  let ?pup1 = "pup\<lparr>life := map_option (\<lambda>l. l - dt) (life pup)\<rparr>"
  show ?case
  proof (cases "case life ?pup1 of Some l \<Rightarrow> l \<le> 0 | None \<Rightarrow> False")
    case True
    with Cons.prems(2) have "powerupLoop dt pups s = (kept, s')" by (simp add: Let_def)
    from Cons.IH[OF Cons.prems(1) this] show ?thesis .
  next
    case alive: False
    show ?thesis
    proof (cases "checkCollision (player s) ?pup1")
      case True
      let ?s0 = "s\<lparr>audioLog := audioLog s @ [Powerup]\<rparr>"
      let ?s1 = "applyPowerup (kind ?pup1) ?s0"
      from True alive Cons.prems(2) have run: "powerupLoop dt pups ?s1 = (kept, s')"
        by (simp add: Let_def)
      have t0: "timer ?s0 = timer s" "score ?s0 = score s" by simp_all
      from Cons.prems(1) t0 have c0: "timer ?s0 \<le> INITIAL_TIME" by simp
      from applyPowerup_clock(2)[OF c0] have c1: "timer ?s1 \<le> INITIAL_TIME" .
      from applyPowerup_clock(1)[of ?s0 "kind ?pup1"] c0 t0
      have up: "timer s \<le> timer ?s1" by linarith
      have sc: "score ?s1 = score s" using applyPowerup_clock(3)[of "kind ?pup1" ?s0] t0 by simp
      from Cons.IH[OF c1 run] up sc show ?thesis by linarith
    next
      case False
      with alive Cons.prems(2) obtain kept1 where "powerupLoop dt pups s = (kept1, s')"
        by (auto simp: Let_def split: prod.splits)
      from Cons.IH[OF Cons.prems(1) this] show ?thesis .
    qed
  qed
qed

lemma powerupPhase_clock:
  assumes "timer s \<le> INITIAL_TIME"
  shows "timer s \<le> timer (powerupPhase dt s) \<and> timer (powerupPhase dt s) \<le> INITIAL_TIME
       \<and> score (powerupPhase dt s) = score s"
proof (cases "powerupLoop dt (powerups s) s")
  case (Pair kept s1)
  from powerupLoop_clock[OF assms Pair] Pair show ?thesis
    by (simp add: powerupPhase_def)
qed

lemma deliveryLogic_capped:
  assumes "timer s \<le> INITIAL_TIME" "deliveryLogic now rnd s = Returns s'"
  shows "timer s' \<le> INITIAL_TIME"
  using assms
  by (auto simp: deliveryLogic_def Let_def split: if_splits option.splits
      dest!: activateCar_core simp: coreSame_def)

lemma update_capped:
  assumes cap: "timer s \<le> INITIAL_TIME" and dt: "0 \<le> dt"
    and upd: "update dt now inp rnd s = Returns s'"
  shows "timer s' \<le> INITIAL_TIME"
proof -
  from update_cases[OF upd] consider
    (same) "s' = s"
    | (timeout) "s' = s\<lparr>timer := timer s - dt, isGameOver := True, gameOverReason := ''TIMEOUT''\<rparr>"
    | (run) s3 s4 s5 ret where "spawnPhase rnd (pauseTick dt s) = Returns s3"
        "powerupSpawn rnd s3 = Returns s4" "playerPhase dt now inp s4 = Returns (s5, ret)"
        "if ret then s' = s5
         else (\<exists>s6 s7 ret2. deliveryLogic now rnd (timersPhase dt s5) = Returns s6
                 \<and> carPhase dt rnd s6 = Returns (s7, ret2)
                 \<and> s' = (if ret2 then s7 else powerupPhase dt s7))"
    by blast
  then show ?thesis
  proof cases
    case same
    with cap show ?thesis by simp
  next
    case timeout
    with cap dt show ?thesis by simp
  next
    case run
    have "timer (pauseTick dt s) = timer s - dt" by (simp add: pauseTick_def)
    with spawnPhase_core[OF run(1)] powerupSpawn_core[OF run(2)] playerPhase_tally[OF run(3)]
    have t5: "timer s5 = timer s - dt" by (simp add: coreSame_def tallySame_def)
    with cap dt have c5: "timer s5 \<le> INITIAL_TIME" by simp
    show ?thesis
    proof (cases ret)
      case True
      with run(4) c5 show ?thesis by simp
    next
      case False
      with run(4) obtain s6 s7 ret2 where
        d: "deliveryLogic now rnd (timersPhase dt s5) = Returns s6"
        and c: "carPhase dt rnd s6 = Returns (s7, ret2)"
        and fin: "s' = (if ret2 then s7 else powerupPhase dt s7)" by auto
      from timersPhase_tally[of s5 dt] c5 have "timer (timersPhase dt s5) \<le> INITIAL_TIME"
        by (simp add: tallySame_def)
      from deliveryLogic_capped[OF this d] have "timer s6 \<le> INITIAL_TIME" .
      with carPhase_tally[OF c] have c7: "timer s7 \<le> INITIAL_TIME" by (simp add: tallySame_def)
      with fin powerupPhase_clock[OF c7, of dt] show ?thesis by (simp split: if_splits)
    qed
  qed
qed

lemma forward_capped: "reachableForward s \<Longrightarrow> timer s \<le> INITIAL_TIME"
proof (induction rule: reachableForward.induct)
  case (start placed rnd k g now prev)
  show ?case by (simp add: startRound_def)
next
  case (tick s lastTime time now inp rnd s')
  from loopDt_bounds[OF tick.hyps(2)] have "0 \<le> loopDt time lastTime" by simp
  from update_capped[OF tick.IH this tick.hyps(3)] show ?case .
qed

subsection \<open>The round clock\<close>

lemma tileAt_allRoad:
  "0 \<le> ty \<Longrightarrow> ty < 30 \<Longrightarrow> 0 \<le> tx \<Longrightarrow> tx < 50 \<Longrightarrow> tileAt allRoad ty tx = Returns (Some ROAD)"
  by (simp add: tileAt_def allRoad_def Let_def)

lemma quiet_walkable: "isWalkable \<lparr>vx = 10, vy = 938\<rparr> \<lparr>vx = 14, vy = 14\<rparr> allRoad = Returns True"
  by (simp add: isWalkable_def corners_def Let_def tileAt_allRoad)

lemma quiet_spawn:
  assumes "0 < timer s"
  shows "spawnPhase halfStream s = Returns (s\<lparr>rngIndex := rngIndex s + 1\<rparr>)"
proof -
  have "\<not> (1 / 2 < (if timer s \<le> 60 then 1 / 100 + (1 - max 0 (timer s) / 60) * (4 / 100) else 1 / 100))"
  proof (cases "timer s \<le> 60")
    case True
    have b: "1 / 100 + (1 - timer s / 60) * (4 / 100) \<le> 5 / 100" using assms by (simp add: field_simps)
    have m: "max 0 (timer s) = timer s" using assms by simp
    from True have "(if timer s \<le> 60 then 1 / 100 + (1 - max 0 (timer s) / 60) * (4 / 100) else 1 / 100)
        = 1 / 100 + (1 - timer s / 60) * (4 / 100)" by (simp only: m if_True)
    with b show ?thesis by linarith
  next
    case False
    then show ?thesis by simp
  qed
  then show ?thesis by (simp add: spawnPhase_def Let_def halfStream_def)
qed

lemma quiet_powerupSpawn:
  "powerupSpawn halfStream s = Returns (s\<lparr>rngIndex := rngIndex s + 1\<rparr>)"
  by (simp add: powerupSpawn_def Let_def halfStream_def)

lemma quietAt_fields:
  "isPlaying (quietAt t k)" "\<not> isGameOver (quietAt t k)" "trafficPauseTimer (quietAt t k) = 0"
  "timer (quietAt t k) = t" "rngIndex (quietAt t k) = k"
  "(quietAt t k)\<lparr>timer := t'\<rparr> = quietAt t' k" "(quietAt t k)\<lparr>rngIndex := k'\<rparr> = quietAt t k'"
  by (simp_all add: quietAt_def quietStart_def startRound_def)

lemma quiet_player: "playerPhase dt 0 noInput (quietAt t k) = Returns (quietAt t k, False)"
  by (simp add: playerPhase_def quietAt_def quietStart_def startRound_def initialState_def
      quietGen_def desiredMove_def noInput_def playerControl_def moveSound_def facePlayer_def
      boostStart_def boostTick_def Let_def movePlayer_def checkMove_def quiet_walkable obind_def
      puddleCheck_def)

lemma quiet_rest:
  "timersPhase dt (quietAt t k) = quietAt t k"
  "deliveryLogic 0 halfStream (quietAt t k) = Returns (quietAt t k)"
  "carPhase dt halfStream (quietAt t k) = Returns (quietAt t k, False)"
  "powerupPhase dt (quietAt t k) = quietAt t k"
  by (simp_all add: timersPhase_def deliveryLogic_def carPhase_def powerupPhase_def quietAt_def
      quietStart_def startRound_def initialState_def quietGen_def Let_def obind_def)

lemma quiet_tick:
  assumes "dt < t"
  shows "update dt 0 noInput halfStream (quietAt t k) = Returns (quietAt (t - dt) (k + 2))"
proof -
  have sp: "spawnPhase halfStream (quietAt (t - dt) k) = Returns (quietAt (t - dt) (Suc k))"
    using quiet_spawn[of "quietAt (t - dt) k"] assms by (simp add: quietAt_fields)
  have pw: "powerupSpawn halfStream (quietAt (t - dt) (Suc k)) = Returns (quietAt (t - dt) (Suc (Suc k)))"
    using quiet_powerupSpawn[of "quietAt (t - dt) (Suc k)"] by (simp add: quietAt_fields)
  show ?thesis
    using assms
    by (simp add: update_def Let_def quietAt_fields sp pw quiet_player quiet_rest obind_def)
qed

lemma quiet_timeout:
  assumes "t \<le> dt"
  shows "update dt 0 noInput halfStream (quietAt t k)
           = Returns ((quietAt (t - dt) k)\<lparr>isGameOver := True, gameOverReason := ''TIMEOUT''\<rparr>)"
  using assms by (simp add: update_def Let_def quietAt_fields)

lemma quiet_run:
  "real n * dt < t \<Longrightarrow> 0 \<le> dt \<Longrightarrow>
   runTicks halfStream (replicate n \<lparr>frameDt = dt, frameNow = 0, frameInput = noInput\<rparr>) (quietAt t k)
     = Returns (quietAt (t - real n * dt) (k + 2 * n))"
proof (induction n arbitrary: t k)
  case 0
  show ?case by simp
next
  case (Suc n)
  have nn: "0 \<le> real n * dt" using Suc.prems(2) by simp
  have e: "real (Suc n) * dt = real n * dt + dt" by (simp add: algebra_simps)
  from Suc.prems(1) nn e have lt: "dt < t" and more: "real n * dt < t - dt"
    by linarith+
  have eq: "t - dt - real n * dt = t - real (Suc n) * dt" by (simp add: algebra_simps)
  show ?case
    using Suc.IH[OF more Suc.prems(2), of "k + 2"] quiet_tick[OF lt, of k]
    by (simp add: eq)
qed

lemma runTicks_append:
  "runTicks rnd (fs @ gs) s = obind (runTicks rnd fs s) (runTicks rnd gs)"
  by (induction fs arbitrary: s) (auto simp: obind_def split: outcome.splits)

lemma reachable_runTicks:
  "reachable s \<Longrightarrow> \<forall>f\<in>set fs. frameClamped f \<Longrightarrow> runTicks rnd fs s = Returns s' \<Longrightarrow> reachable s'"
proof (induction fs arbitrary: s)
  case Nil
  then show ?case by simp
next
  case (Cons f fs)
  from Cons.prems(3) obtain s1 where
    u: "update (frameDt f) (frameNow f) (frameInput f) rnd s = Returns s1"
    and r: "runTicks rnd fs s1 = Returns s'"
    by (auto split: outcome.splits)
  from Cons.prems(2) have ok: "frameDt f \<le> 1 / 10" by (simp add: frameClamped_def)
  then have "loopDt (frameDt f * 1000) 0 = frameDt f" by (simp add: loopDt_def)
  with u have "update (loopDt (frameDt f * 1000) 0) (frameNow f) (frameInput f) rnd s = Returns s1"
    by simp
  then have "reachable s1" using Cons.prems(1) reachable.tick by blast
  from Cons.IH[OF this _ r] Cons.prems(2) show ?case by simp
qed

lemma forward_runTicks:
  "reachableForward s \<Longrightarrow> \<forall>f\<in>set fs. frameOK f \<Longrightarrow> runTicks rnd fs s = Returns s'
     \<Longrightarrow> reachableForward s'"
proof (induction fs arbitrary: s)
  case Nil
  then show ?case by simp
next
  case (Cons f fs)
  from Cons.prems(3) obtain s1 where
    u: "update (frameDt f) (frameNow f) (frameInput f) rnd s = Returns s1"
    and r: "runTicks rnd fs s1 = Returns s'"
    by (auto split: outcome.splits)
  from Cons.prems(2) have ok: "0 \<le> frameDt f" "frameDt f \<le> 1 / 10" by (simp_all add: frameOK_def)
  then have "loopDt (frameDt f * 1000) 0 = frameDt f" by (simp add: loopDt_def)
  with u have "update (loopDt (frameDt f * 1000) 0) (frameNow f) (frameInput f) rnd s = Returns s1"
    by simp
  moreover have "(0::real) \<le> frameDt f * 1000" using ok by simp
  ultimately have "reachableForward s1" using Cons.prems(1) reachableForward.tick by blast
  from Cons.IH[OF this _ r] Cons.prems(2) show ?case by simp
qed

lemma quiet_to_timeout:
  "runTicks halfStream (replicate 1667 quietFrame) quietStart = Returns timedOut"
proof -
  have "(1667::nat) = Suc 1666" by simp
  then have split: "replicate 1667 quietFrame = replicate 1666 quietFrame @ [quietFrame]"
    by (simp only: replicate_Suc replicate_append_same)
  have q0: "quietStart = quietAt 150 0"
    by (simp add: quietAt_def quietStart_def startRound_def quietGen_def)
  have run: "runTicks halfStream (replicate 1666 quietFrame) (quietAt 150 0)
               = Returns (quietAt (150 - real 1666 * (9 / 100)) (0 + 2 * 1666))"
    unfolding quietFrame_def by (rule quiet_run) simp_all
  have last: "update (9 / 100) 0 noInput halfStream (quietAt (6 / 100) 3332)
               = Returns ((quietAt (6 / 100 - 9 / 100) 3332)\<lparr>isGameOver := True, gameOverReason := ''TIMEOUT''\<rparr>)"
    by (rule quiet_timeout) simp
  show ?thesis
    unfolding split runTicks_append q0 run
    using last by (simp add: obind_def quietFrame_def timedOut_def)
qed

lemma reachable_timedOut: "reachable timedOut"
proof -
  have "selectTarget zeroStream 0 [] = Returns (genHouses quietGen)"
    by (simp add: selectTarget_def quietGen_def)
  then have "reachable quietStart"
    unfolding quietStart_def by (intro reachable.start[of "[]"]) simp_all
  moreover have "\<forall>f\<in>set (replicate 1667 quietFrame). frameClamped f"
    by (simp add: frameClamped_def quietFrame_def)
  ultimately show ?thesis using quiet_to_timeout by (rule reachable_runTicks)
qed

lemma forward_timedOut: "reachableForward timedOut"
proof -
  have "selectTarget zeroStream 0 [] = Returns (genHouses quietGen)"
    by (simp add: selectTarget_def quietGen_def)
  then have "reachableForward quietStart"
    unfolding quietStart_def by (intro reachableForward.start[of "[]"]) simp_all
  moreover have "\<forall>f\<in>set (replicate 1667 quietFrame). frameOK f"
    by (simp add: frameOK_def quietFrame_def)
  ultimately show ?thesis using quiet_to_timeout by (rule forward_runTicks)
qed

text \<open>
  A frame whose time lies 10 ms before the last one: the tick adds to the clock, and the
  round is played on with more than \<^verbatim>\<open>INITIAL_TIME\<close> on it.
\<close>

lemma backward_frame_over_cap:
  "reachable (quietAt (150 + 1 / 100) 2) \<and> INITIAL_TIME < timer (quietAt (150 + 1 / 100) 2)
   \<and> \<not> isGameOver (quietAt (150 + 1 / 100) 2)"
proof -
  have "selectTarget zeroStream 0 [] = Returns (genHouses quietGen)"
    by (simp add: selectTarget_def quietGen_def)
  then have r0: "reachable quietStart"
    unfolding quietStart_def by (intro reachable.start[of "[]"]) simp_all
  have q0: "quietStart = quietAt 150 0"
    by (simp add: quietAt_def quietStart_def startRound_def quietGen_def)
  have dt: "loopDt 0 10 = - (1 / 100)" by (simp add: loopDt_def)
  have u: "update (- (1 / 100)) 0 noInput halfStream (quietAt 150 0)
      = Returns (quietAt (150 - - (1 / 100)) (0 + 2))"
    by (rule quiet_tick) simp
  have e: "(150::real) - - (1 / 100) = 150 + 1 / 100" "(0::nat) + 2 = 2" by simp_all
  from u[unfolded e] have "update (loopDt 0 10) 0 noInput halfStream quietStart
      = Returns (quietAt (150 + 1 / 100) 2)"
    unfolding dt q0 .
  from reachable.tick[OF r0 this] show ?thesis by (simp add: quietAt_fields)
qed

text \<open>
  Claim C2, amended. In every reachable state the timer is above \<open>-0.1\<close>, and it is
  positive unless the round is over with reason TIMEOUT. The tick of a round in play
  that brings the timer to zero or below ends the round with reason TIMEOUT and leaves
  the timer where the subtraction put it, not at zero. In every state of a round whose
  frame times never ran backwards (no negative delta) the timer is at most
  \<^verbatim>\<open>INITIAL_TIME\<close>.
\<close>

theorem timer_bounds:
  "(reachable s \<longrightarrow>
      - (1 / 10) < timer s \<and> (0 < timer s \<or> isGameOver s \<and> gameOverReason s = ''TIMEOUT''))
   \<and> (reachableForward s \<longrightarrow> timer s \<le> INITIAL_TIME)
   \<and> (isPlaying s \<and> \<not> isGameOver s \<and> timer s \<le> dt \<longrightarrow>
        update dt now inp rnd s
          = Returns (s\<lparr>timer := timer s - dt, isGameOver := True, gameOverReason := ''TIMEOUT''\<rparr>))"
proof -
  have "- (1 / 10) < timer s \<and> (0 < timer s \<or> isGameOver s \<and> gameOverReason s = ''TIMEOUT'')"
    if "reachable s"
    using reachable_roundInv[OF that]
    by (auto simp: roundInv_def running_def overHealth_def overTimeout_def)
  moreover have "timer s \<le> INITIAL_TIME" if "reachableForward s"
    using forward_capped[OF that] .
  moreover have "update dt now inp rnd s
      = Returns (s\<lparr>timer := timer s - dt, isGameOver := True, gameOverReason := ''TIMEOUT''\<rparr>)"
    if "isPlaying s \<and> \<not> isGameOver s \<and> timer s \<le> dt"
    using that by (simp add: update_def Let_def)
  ultimately show ?thesis by blast
qed

theorem timer_bounds_witness:
  "reachable timedOut \<and> reachableForward timedOut
   \<and> - (1 / 10) < timer timedOut \<and> timer timedOut \<le> INITIAL_TIME
   \<and> isGameOver timedOut \<and> gameOverReason timedOut = ''TIMEOUT''
   \<and> isPlaying (quietAt (6 / 100) 3332) \<and> \<not> isGameOver (quietAt (6 / 100) 3332)
   \<and> timer (quietAt (6 / 100) 3332) \<le> 9 / 100
   \<and> update (9 / 100) 0 noInput halfStream (quietAt (6 / 100) 3332) = Returns timedOut"
  using timer_bounds[of timedOut 0 0 noInput halfStream]
    timer_bounds[of "quietAt (6 / 100) 3332" "9 / 100" 0 noInput halfStream]
    reachable_timedOut forward_timedOut
  by (simp add: timedOut_def quietAt_fields)

text \<open>
  The claim as stated bounds the timer below by zero in every reachable state. The
  state after 1666 frames of 90 ms and one more has the timer at \<open>-0.03\<close>.
\<close>

theorem timer_negative_reachable:
  "reachable timedOut \<and> timer timedOut = - (3 / 100) \<and> \<not> 0 \<le> timer timedOut"
  using reachable_timedOut by (simp add: timedOut_def quietAt_def)

subsection \<open>Delivery\<close>

lemma findIndex_Some:
  "findIndex P xs = int i \<Longrightarrow> i < length xs \<and> P (xs ! i)"
proof (induction xs arbitrary: i)
  case Nil
  then show ?case by simp
next
  case (Cons x xs)
  show ?case
  proof (cases "P x")
    case True
    with Cons.prems show ?thesis by simp
  next
    case False
    have ge: "findIndex P xs \<ge> -1" by (rule findIndex_ge)
    from False Cons.prems have ne: "findIndex P xs \<noteq> -1" and eq: "findIndex P xs + 1 = int i"
      by (auto simp: Let_def split: if_splits)
    from ge ne eq obtain n where i: "i = Suc n" and "findIndex P xs = int n"
      by (cases i) auto
    with Cons.IH[of n] show ?thesis by simp
  qed
qed



lemma deliveryLogic_unfold:
  assumes "findIndex isTarget (houses s) = int t"
    and "getDistance (pos (player s)) (doorPos (houses s ! t)) < 80"
  shows "deliveryLogic now rnd s =
     (case pickNextHouse rnd (length (houses s)) (int t) (rngIndex s) of
        None \<Rightarrow> Diverges
      | Some (j, k) \<Rightarrow>
          if j < 0 \<or> int (length (houses s)) \<le> j then Throws
          else activateCar rnd (deliveredState now s t (nat j) k))"
  using assms
  by (simp add: deliveryLogic_def Let_def deliveredState_def split: option.splits prod.splits)


















lemma deliveryStart_fields:
  "houses deliveryStart = [houseA, houseB]" "pos (player deliveryStart) = \<lparr>vx = 10, vy = 938\<rparr>"
  "timer deliveryStart = 150" "rngIndex deliveryStart = 0" "score deliveryStart = 0"
  "cars deliveryStart = []"
  by (simp_all add: deliveryStart_def startRound_def quietGen_def)



















subsection \<open>Single target and walkability\<close>

lemma targetCount_update:
  "i < length hs \<Longrightarrow>
   targetCount (hs[i := h]) + (if isTarget (hs ! i) then 1 else 0)
     = targetCount hs + (if isTarget h then 1 else 0)"
proof (induction hs arbitrary: i)
  case Nil
  then show ?case by simp
next
  case (Cons a hs)
  show ?case
  proof (cases i)
    case 0
    then show ?thesis by (simp add: targetCount_def)
  next
    case (Suc n)
    with Cons.prems have "n < length hs" by simp
    from Cons.IH[OF this] Suc show ?thesis by (simp add: targetCount_def)
  qed
qed

lemma targetCount_none: "list_all (\<lambda>h. \<not> isTarget h) hs \<Longrightarrow> targetCount hs = 0"
  by (induction hs) (simp_all add: targetCount_def)

lemma selectTarget_one:
  assumes "list_all (\<lambda>h. \<not> isTarget h) placed" "selectTarget rnd k placed = Returns hs"
  shows "oneTarget hs"
proof (cases "placed = []")
  case True
  with assms(2) show ?thesis by (simp add: selectTarget_def oneTarget_def targetCount_def)
next
  case False
  define jj where "jj = \<lfloor>rnd k * real (length placed)\<rfloor>"
  define j where "j = nat jj"
  from False assms(2) have "\<not> (jj < 0 \<or> int (length placed) \<le> jj)
      \<and> hs = placed[nat jj := (placed ! nat jj)\<lparr>isTarget := True\<rparr>]"
    unfolding selectTarget_def Let_def jj_def[symmetric] by (auto split: if_splits)
  then have j: "j < length placed"
    and hs: "hs = placed[j := (placed ! j)\<lparr>isTarget := True\<rparr>]"
    unfolding j_def by (linarith, blast)
  from assms(1) j have "\<not> isTarget (placed ! j)" by (simp add: list_all_length)
  with targetCount_update[OF j, of "(placed ! j)\<lparr>isTarget := True\<rparr>"] targetCount_none[OF assms(1)]
  have "targetCount hs = 1" by (simp add: hs)
  moreover from False hs have "hs \<noteq> []" by simp
  ultimately show ?thesis by (simp add: oneTarget_def)
qed

lemma deliveryLogic_oneTarget:
  assumes one: "oneTarget (houses s)" and d: "deliveryLogic now rnd s = Returns s'"
  shows "oneTarget (houses s')"
proof (cases "findIndex isTarget (houses s) = -1
              \<or> \<not> getDistance (pos (player s)) (doorPos (houses s ! nat (findIndex isTarget (houses s)))) < 80")
  case True
  have "deliveryLogic now rnd s = Returns s"
  proof (cases "findIndex isTarget (houses s) = -1")
    case True
    then show ?thesis by (simp add: deliveryLogic_def)
  next
    case nf: False
    with True have "\<not> getDistance (pos (player s)) (doorPos (houses s ! nat (findIndex isTarget (houses s)))) < 80"
      by simp
    with nf show ?thesis by (simp add: deliveryLogic_def Let_def)
  qed
  with d one show ?thesis by simp
next
  case False
  have ge: "findIndex isTarget (houses s) \<ge> -1" by (rule findIndex_ge)
  with False obtain t where fi: "findIndex isTarget (houses s) = int t"
    by (cases "findIndex isTarget (houses s)") auto
  from findIndex_Some[OF fi] have t: "t < length (houses s)" and tt: "isTarget (houses s ! t)"
    by simp_all
  define hs where "hs = (houses s)[t := (houses s ! t)\<lparr>isTarget := False\<rparr>]"
  from t have ne: "houses s \<noteq> []" by auto
  with one have c1: "targetCount (houses s) = 1" by (simp add: oneTarget_def)
  from targetCount_update[OF t, of "(houses s ! t)\<lparr>isTarget := False\<rparr>"] tt c1
  have c0: "targetCount hs = 0" by (simp add: hs_def)
  from False fi have near: "getDistance (pos (player s)) (doorPos (houses s ! t)) < 80" by simp
  from d[unfolded deliveryLogic_unfold[OF fi near]] obtain j k where
    nj: "\<not> j < 0" "\<not> int (length (houses s)) \<le> j"
    and act: "activateCar rnd (deliveredState now s t (nat j) k) = Returns s'"
    by (auto split: option.splits if_splits)
  from nj have j: "0 \<le> j" "j < int (length hs)" by (simp_all add: hs_def)
  define sD where "sD = deliveredState now s t (nat j) k"
  have sD: "houses sD = hs[nat j := (hs ! nat j)\<lparr>isTarget := True\<rparr>]"
    by (simp add: sD_def deliveredState_def hs_def)
  note act = act[folded sD_def]
  from j have jn: "nat j < length hs" by simp
  have "\<not> isTarget (hs ! nat j)"
  proof
    assume "isTarget (hs ! nat j)"
    with jn have "hs ! nat j \<in> set (filter isTarget hs)" by simp
    with c0 show False by (simp add: targetCount_def)
  qed
  with targetCount_update[OF jn, of "(hs ! nat j)\<lparr>isTarget := True\<rparr>"] c0
  have "targetCount (houses sD) = 1" by (simp add: sD)
  moreover from jn have "houses sD \<noteq> []" by (auto simp: sD)
  moreover from activateCar_core[OF act] have "houses s' = houses sD" by (simp add: coreSame_def)
  ultimately show ?thesis by (simp add: oneTarget_def)
qed

lemma deliveryLogic_place:
  "deliveryLogic now rnd s = Returns s' \<Longrightarrow>
     mapGrid s' = mapGrid s \<and> player s' = player s \<and> isPlaying s' = isPlaying s"
  by (auto simp: deliveryLogic_def Let_def coreSame_def split: option.splits if_splits
      dest!: activateCar_core)

lemma update_oneTarget:
  assumes upd: "update dt now inp rnd s = Returns s'" and one: "oneTarget (houses s)"
  shows "oneTarget (houses s')"
proof -
  from update_cases[OF upd] consider
    (same) "s' = s"
    | (timeout) "s' = s\<lparr>timer := timer s - dt, isGameOver := True, gameOverReason := ''TIMEOUT''\<rparr>"
    | (run) s3 s4 s5 ret where "spawnPhase rnd (pauseTick dt s) = Returns s3"
        "powerupSpawn rnd s3 = Returns s4" "playerPhase dt now inp s4 = Returns (s5, ret)"
        "if ret then s' = s5
         else (\<exists>s6 s7 ret2. deliveryLogic now rnd (timersPhase dt s5) = Returns s6
                 \<and> carPhase dt rnd s6 = Returns (s7, ret2)
                 \<and> s' = (if ret2 then s7 else powerupPhase dt s7))"
    by blast
  then show ?thesis
  proof cases
    case same
    with one show ?thesis by simp
  next
    case timeout
    with one show ?thesis by simp
  next
    case run
    have "houses (pauseTick dt s) = houses s" by (simp add: pauseTick_def)
    with spawnPhase_core[OF run(1)] powerupSpawn_core[OF run(2)] playerPhase_lot[OF run(3)]
    have h5: "houses s5 = houses s" by (simp add: coreSame_def lotSame_def)
    show ?thesis
    proof (cases ret)
      case True
      with run(4) h5 one show ?thesis by simp
    next
      case False
      with run(4) obtain s6 s7 ret2 where
        d: "deliveryLogic now rnd (timersPhase dt s5) = Returns s6"
        and c: "carPhase dt rnd s6 = Returns (s7, ret2)"
        and fin: "s' = (if ret2 then s7 else powerupPhase dt s7)" by auto
      from timersPhase_lot[of s5 dt] h5 one have "oneTarget (houses (timersPhase dt s5))"
        by (simp add: lotSame_def)
      from deliveryLogic_oneTarget[OF this d] have "oneTarget (houses s6)" .
      with carPhase_lot[OF c] have "oneTarget (houses s7)" by (simp add: lotSame_def)
      with fin powerupPhase_lot[of s7 dt] show ?thesis by (simp add: lotSame_def)
    qed
  qed
qed

lemma reachable_oneTarget: "reachable s \<Longrightarrow> oneTarget (houses s)"
proof (induction rule: reachable.induct)
  case (start placed rnd k g now prev)
  from selectTarget_one[OF start] show ?case by (simp add: startRound_def)
next
  case (tick s time lastTime now inp rnd s')
  from update_oneTarget[OF tick.hyps(2) tick.IH] show ?case .
qed

text \<open>
  Claim C4, amended. In every reachable state with at least one house exactly one house
  is the target, and with no house none is: target selection in \<^verbatim>\<open>initGame\<close> marks
  one house if there is any, a delivery clears the old target before it marks the
  next, and nothing else in a tick writes the flag.
\<close>

theorem single_target:
  assumes "reachable s"
  shows "targetCount (houses s) = (if houses s = [] then 0 else 1)"
  using reachable_oneTarget[OF assms] by (simp add: oneTarget_def)

lemma reachable_quietStart: "reachable quietStart"
proof -
  have "selectTarget zeroStream 0 [] = Returns (genHouses quietGen)"
    by (simp add: selectTarget_def quietGen_def)
  then show ?thesis
    unfolding quietStart_def by (intro reachable.start[of "[]"]) simp_all
qed

lemma reachable_deliveryStart: "reachable deliveryStart"
proof -
  have "selectTarget zeroStream 0 [houseA\<lparr>isTarget := False\<rparr>, houseB]
          = Returns (genHouses (quietGen\<lparr>genHouses := [houseA, houseB]\<rparr>))"
    by (simp add: selectTarget_def zeroStream_def houseA_def)
  then show ?thesis
    unfolding deliveryStart_def
    by (intro reachable.start[of "[houseA\<lparr>isTarget := False\<rparr>, houseB]"]) (simp_all add: houseB_def)
qed

theorem single_target_witness:
  "reachable deliveryStart \<and> houses deliveryStart \<noteq> [] \<and> targetCount (houses deliveryStart) = 1"
  using single_target[OF reachable_deliveryStart] reachable_deliveryStart
  by (simp add: deliveryStart_fields)

text \<open>
  The claim as stated (exactly one target on every tick of play) fails for the round
  that \<^verbatim>\<open>initGame\<close> starts when the placement loop has pushed no house: line 554 then
  skips the selection, and the round is played without a target.
\<close>

theorem no_target_without_houses:
  "reachable quietStart \<and> isPlaying quietStart \<and> \<not> isGameOver quietStart
   \<and> targetCount (houses quietStart) = 0"
  using reachable_quietStart
  by (simp add: quietStart_def startRound_def quietGen_def targetCount_def)
lemma walkablePoints_iff: "walkablePoints ps m = Returns True \<longleftrightarrow> list_all (cornerOnRoad m) ps"
proof (induction ps)
  case Nil
  show ?case by simp
next
  case (Cons p ps)
  show ?case
  proof (cases "\<lfloor>vx p / TILE_SIZE\<rfloor> < 0 \<or> \<lfloor>vx p / TILE_SIZE\<rfloor> \<ge> MAP_WIDTH
                 \<or> \<lfloor>vy p / TILE_SIZE\<rfloor> < 0 \<or> \<lfloor>vy p / TILE_SIZE\<rfloor> \<ge> MAP_HEIGHT")
    case True
    then show ?thesis by (auto simp: Let_def cornerOnRoad_def)
  next
    case False
    then show ?thesis
      using Cons.IH by (cases "tileAt m \<lfloor>vy p / TILE_SIZE\<rfloor> \<lfloor>vx p / TILE_SIZE\<rfloor>")
        (auto simp: Let_def cornerOnRoad_def)
  qed
qed

lemma isWalkable_iff:
  "isWalkable p sz m = Returns True \<longleftrightarrow> list_all (cornerOnRoad m) (corners p sz)"
  by (simp add: isWalkable_def walkablePoints_iff)

lemma checkMove_True:
  "checkMove s p = Returns True \<Longrightarrow> isWalkable p (esize (player s)) (mapGrid s) = Returns True"
  by (auto simp: checkMove_def obind_def split: outcome.splits if_splits)

lemma place_onRoad: "lotSame s s' \<Longrightarrow> posSame s s' \<Longrightarrow> playerOnRoad s' = playerOnRoad s"
  by (simp add: lotSame_def posSame_def playerOnRoad_def)

lemma Vector2_update:
  "(p::Vector2)\<lparr>vx := a\<rparr> = \<lparr>vx = a, vy = vy p\<rparr>" "(p::Vector2)\<lparr>vy := b\<rparr> = \<lparr>vx = vx p, vy = b\<rparr>"
  by (cases p, simp)+

lemma movePlayer_onRoad:
  assumes on: "playerOnRoad s" and mv: "movePlayer dx dy s = Returns s'"
  shows "playerOnRoad s'"
proof -
  let ?n1 = "\<lparr>vx = vx (pos (player s)) + dx, vy = vy (pos (player s))\<rparr>"
  define s1 where "s1 = (\<lambda>okX. if okX then s\<lparr>player := (player s)\<lparr>pos := (pos (player s))\<lparr>vx := vx ?n1\<rparr>\<rparr>\<rparr> else s)"
  from mv obtain okX okY where cx: "checkMove s ?n1 = Returns okX"
    and cy: "checkMove (s1 okX) \<lparr>vx = vx (pos (player (s1 okX))), vy = vy (pos (player (s1 okX))) + dy\<rparr>
               = Returns okY"
    and fin: "s' = (if okY then (s1 okX)\<lparr>player := (player (s1 okX))\<lparr>pos :=
                 (pos (player (s1 okX)))\<lparr>vy := vy (pos (player (s1 okX))) + dy\<rparr>\<rparr>\<rparr> else s1 okX)"
    unfolding movePlayer_def Let_def s1_def obind_Returns by auto
  have r1: "playerOnRoad (s1 okX)"
  proof (cases okX)
    case True
    with cx have "checkMove s ?n1 = Returns True" by simp
    then have "isWalkable ?n1 (esize (player s)) (mapGrid s) = Returns True" by (rule checkMove_True)
    with True show ?thesis by (simp add: s1_def playerOnRoad_def Vector2_update)
  next
    case False
    with on show ?thesis by (simp add: s1_def)
  qed
  show ?thesis
  proof (cases okY)
    case True
    with cy have "checkMove (s1 okX) \<lparr>vx = vx (pos (player (s1 okX))), vy = vy (pos (player (s1 okX))) + dy\<rparr>
        = Returns True" by simp
    then have "isWalkable \<lparr>vx = vx (pos (player (s1 okX))), vy = vy (pos (player (s1 okX))) + dy\<rparr>
        (esize (player (s1 okX))) (mapGrid (s1 okX)) = Returns True" by (rule checkMove_True)
    with True fin show ?thesis by (simp add: playerOnRoad_def Vector2_update)
  next
    case False
    with fin r1 show ?thesis by simp
  qed
qed

lemma playerPhase_onRoad:
  assumes "playerOnRoad s" "playerPhase dt now inp s = Returns (s', ret)"
  shows "playerOnRoad s'"
proof (cases "stunned (player s) > 0")
  case True
  with assms show ?thesis by (auto simp: playerPhase_def playerOnRoad_def)
next
  case False
  with assms(2) obtain dx dy s1 where
    mv: "movePlayer dx dy (playerControl dt now inp s) = Returns s1"
    and pc: "puddleCheck s1 = (s', ret)"
    by (auto simp: playerPhase_def obind_Returns split: prod.splits)
  from playerControl_lot[of s dt now inp] assms(1)
  have "playerOnRoad (playerControl dt now inp s)" by (auto simp: place_onRoad)
  from movePlayer_onRoad[OF this mv] puddleCheck_lot[OF pc] show ?thesis by (auto simp: place_onRoad)
qed

lemma update_onRoad:
  assumes upd: "update dt now inp rnd s = Returns s'" and on: "playerOnRoad s"
  shows "playerOnRoad s'"
proof -
  from update_cases[OF upd] consider
    (same) "s' = s"
    | (timeout) "s' = s\<lparr>timer := timer s - dt, isGameOver := True, gameOverReason := ''TIMEOUT''\<rparr>"
    | (run) s3 s4 s5 ret where "spawnPhase rnd (pauseTick dt s) = Returns s3"
        "powerupSpawn rnd s3 = Returns s4" "playerPhase dt now inp s4 = Returns (s5, ret)"
        "if ret then s' = s5
         else (\<exists>s6 s7 ret2. deliveryLogic now rnd (timersPhase dt s5) = Returns s6
                 \<and> carPhase dt rnd s6 = Returns (s7, ret2)
                 \<and> s' = (if ret2 then s7 else powerupPhase dt s7))"
    by blast
  then show ?thesis
  proof cases
    case same
    with on show ?thesis by simp
  next
    case timeout
    with on show ?thesis by (simp add: playerOnRoad_def)
  next
    case run
    from on have "playerOnRoad (pauseTick dt s)" by (simp add: pauseTick_def playerOnRoad_def)
    with coreSame_lot[OF spawnPhase_core[OF run(1)]] have "playerOnRoad s3" by (auto simp: place_onRoad)
    with coreSame_lot[OF powerupSpawn_core[OF run(2)]] have "playerOnRoad s4" by (auto simp: place_onRoad)
    from playerPhase_onRoad[OF this run(3)] have o5: "playerOnRoad s5" .
    show ?thesis
    proof (cases ret)
      case True
      with run(4) o5 show ?thesis by simp
    next
      case False
      with run(4) obtain s6 s7 ret2 where
        d: "deliveryLogic now rnd (timersPhase dt s5) = Returns s6"
        and c: "carPhase dt rnd s6 = Returns (s7, ret2)"
        and fin: "s' = (if ret2 then s7 else powerupPhase dt s7)" by auto
      from timersPhase_lot[of s5 dt] o5 have "playerOnRoad (timersPhase dt s5)"
        by (auto simp: place_onRoad)
      with deliveryLogic_place[OF d] have "playerOnRoad s6" by (simp add: playerOnRoad_def)
      with carPhase_lot[OF c] have "playerOnRoad s7" by (auto simp: place_onRoad)
      with fin powerupPhase_lot[of s7 dt] show ?thesis by (auto simp: place_onRoad)
    qed
  qed
qed

lemma runTicks_onRoad:
  "playerOnRoad s \<Longrightarrow> runTicks rnd fs s = Returns s' \<Longrightarrow> playerOnRoad s'"
proof (induction fs arbitrary: s)
  case Nil
  then show ?case by simp
next
  case (Cons f fs)
  from Cons.prems(2) obtain s1 where
    u: "update (frameDt f) (frameNow f) (frameInput f) rnd s = Returns s1"
    and r: "runTicks rnd fs s1 = Returns s'"
    by (auto split: outcome.splits)
  from Cons.IH[OF update_onRoad[OF u Cons.prems(1)] r] show ?case .
qed

lemma cornerOnRoad_roadAt: "cornerOnRoad m c = roadAt m (vx c) (vy c)"
proof -
  have "(tileAt m ty tx = Returns (Some ROAD))
      = (nat ty < length m \<and> nat tx < length (m ! nat ty) \<and> m ! nat ty ! nat tx = ROAD)"
    if "0 \<le> tx" "0 \<le> ty" for tx ty
    using that by (auto simp: tileAt_def Let_def)
  then show ?thesis by (auto simp: cornerOnRoad_def roadAt_def Let_def)
qed

lemma isWalkable_roadAt:
  "isWalkable p sz m = Returns True \<longleftrightarrow>
     roadAt m (vx p) (vy p) \<and> roadAt m (vx p + vx sz - 1) (vy p)
     \<and> roadAt m (vx p) (vy p + vy sz - 1) \<and> roadAt m (vx p + vx sz - 1) (vy p + vy sz - 1)"
  by (simp add: isWalkable_iff corners_def cornerOnRoad_roadAt)

lemma movePlayer_axes:
  assumes mv: "movePlayer dx dy s = Returns s'"
  shows "(vx (pos (player s')) = vx (pos (player s))
          \<or> vx (pos (player s')) = vx (pos (player s)) + dx
            \<and> isWalkable \<lparr>vx = vx (pos (player s)) + dx, vy = vy (pos (player s))\<rparr>
                 (esize (player s)) (mapGrid s) = Returns True)
       \<and> (vy (pos (player s')) = vy (pos (player s))
          \<or> vy (pos (player s')) = vy (pos (player s)) + dy
            \<and> isWalkable \<lparr>vx = vx (pos (player s')), vy = vy (pos (player s)) + dy\<rparr>
                 (esize (player s)) (mapGrid s) = Returns True)"
proof -
  let ?n1 = "\<lparr>vx = vx (pos (player s)) + dx, vy = vy (pos (player s))\<rparr>"
  define s1 where "s1 = (\<lambda>okX. if okX then s\<lparr>player := (player s)\<lparr>pos := (pos (player s))\<lparr>vx := vx ?n1\<rparr>\<rparr>\<rparr> else s)"
  from mv obtain okX okY where cx: "checkMove s ?n1 = Returns okX"
    and cy: "checkMove (s1 okX) \<lparr>vx = vx (pos (player (s1 okX))), vy = vy (pos (player (s1 okX))) + dy\<rparr>
               = Returns okY"
    and fin: "s' = (if okY then (s1 okX)\<lparr>player := (player (s1 okX))\<lparr>pos :=
                 (pos (player (s1 okX)))\<lparr>vy := vy (pos (player (s1 okX))) + dy\<rparr>\<rparr>\<rparr> else s1 okX)"
    unfolding movePlayer_def Let_def s1_def obind_Returns by auto
  have x1: "vx (pos (player s')) = vx (pos (player (s1 okX)))"
    and y1: "vy (pos (player (s1 okX))) = vy (pos (player s))"
    and e1: "esize (player (s1 okX)) = esize (player s)" "mapGrid (s1 okX) = mapGrid s"
    using fin by (simp_all add: s1_def)
  have X: "vx (pos (player (s1 okX))) = vx (pos (player s))
          \<or> vx (pos (player (s1 okX))) = vx (pos (player s)) + dx
            \<and> isWalkable ?n1 (esize (player s)) (mapGrid s) = Returns True"
  proof (cases okX)
    case True
    with cx have "checkMove s ?n1 = Returns True" by simp
    then have "isWalkable ?n1 (esize (player s)) (mapGrid s) = Returns True" by (rule checkMove_True)
    with True show ?thesis by (simp add: s1_def)
  next
    case False
    then show ?thesis by (simp add: s1_def)
  qed
  have Y: "vy (pos (player s')) = vy (pos (player s))
          \<or> vy (pos (player s')) = vy (pos (player s)) + dy
            \<and> isWalkable \<lparr>vx = vx (pos (player s')), vy = vy (pos (player s)) + dy\<rparr>
                 (esize (player s)) (mapGrid s) = Returns True"
  proof (cases okY)
    case True
    with cy have "checkMove (s1 okX) \<lparr>vx = vx (pos (player (s1 okX))), vy = vy (pos (player (s1 okX))) + dy\<rparr>
        = Returns True" by simp
    then have "isWalkable \<lparr>vx = vx (pos (player (s1 okX))), vy = vy (pos (player (s1 okX))) + dy\<rparr>
        (esize (player (s1 okX))) (mapGrid (s1 okX)) = Returns True" by (rule checkMove_True)
    with True fin x1 y1 e1 show ?thesis by simp
  next
    case False
    with fin y1 show ?thesis by simp
  qed
  from X Y x1 show ?thesis by simp
qed

text \<open>
  Claim C5. The four points that \<^verbatim>\<open>isWalkable\<close> tests (lines 83--88) are the corners
  \<open>(x, y)\<close>, \<open>(x + w - 1, y)\<close>, \<open>(x, y + h - 1)\<close> and \<open>(x + w - 1, y + h - 1)\<close> of
  the box of the player at \<open>(x, y)\<close> with size \<open>(w, h)\<close>. From a state in which these
  four points lie on in-bounds ROAD tiles, every run of ticks that returns leaves them
  on in-bounds ROAD tiles. \<^verbatim>\<open>isWalkable\<close> returns true exactly when the four points
  do; and the resolver commits the horizontal step only when the position it leads to
  passes the test, and then the vertical step only when the position that it leads to
  from there passes it.
\<close>

theorem walkability_invariant:
  assumes "roadAt (mapGrid s0) (vx (pos (player s0))) (vy (pos (player s0)))"
    and "roadAt (mapGrid s0) (vx (pos (player s0)) + vx (esize (player s0)) - 1) (vy (pos (player s0)))"
    and "roadAt (mapGrid s0) (vx (pos (player s0))) (vy (pos (player s0)) + vy (esize (player s0)) - 1)"
    and "roadAt (mapGrid s0) (vx (pos (player s0)) + vx (esize (player s0)) - 1)
           (vy (pos (player s0)) + vy (esize (player s0)) - 1)"
    and "runTicks rnd fs s0 = Returns s"
  shows "roadAt (mapGrid s) (vx (pos (player s))) (vy (pos (player s)))
       \<and> roadAt (mapGrid s) (vx (pos (player s)) + vx (esize (player s)) - 1) (vy (pos (player s)))
       \<and> roadAt (mapGrid s) (vx (pos (player s))) (vy (pos (player s)) + vy (esize (player s)) - 1)
       \<and> roadAt (mapGrid s) (vx (pos (player s)) + vx (esize (player s)) - 1)
           (vy (pos (player s)) + vy (esize (player s)) - 1)
       \<and> (isWalkable p sz m = Returns True \<longleftrightarrow>
            roadAt m (vx p) (vy p) \<and> roadAt m (vx p + vx sz - 1) (vy p)
            \<and> roadAt m (vx p) (vy p + vy sz - 1) \<and> roadAt m (vx p + vx sz - 1) (vy p + vy sz - 1))
       \<and> (movePlayer dx dy s1 = Returns s2 \<longrightarrow>
            (vx (pos (player s2)) = vx (pos (player s1))
             \<or> vx (pos (player s2)) = vx (pos (player s1)) + dx
               \<and> isWalkable \<lparr>vx = vx (pos (player s1)) + dx, vy = vy (pos (player s1))\<rparr>
                    (esize (player s1)) (mapGrid s1) = Returns True)
          \<and> (vy (pos (player s2)) = vy (pos (player s1))
             \<or> vy (pos (player s2)) = vy (pos (player s1)) + dy
               \<and> isWalkable \<lparr>vx = vx (pos (player s2)), vy = vy (pos (player s1)) + dy\<rparr>
                    (esize (player s1)) (mapGrid s1) = Returns True))"
proof -
  from assms(1-4) have "playerOnRoad s0" by (simp add: playerOnRoad_def isWalkable_roadAt)
  from runTicks_onRoad[OF this assms(5)] have "playerOnRoad s" .
  then have "roadAt (mapGrid s) (vx (pos (player s))) (vy (pos (player s)))
       \<and> roadAt (mapGrid s) (vx (pos (player s)) + vx (esize (player s)) - 1) (vy (pos (player s)))
       \<and> roadAt (mapGrid s) (vx (pos (player s))) (vy (pos (player s)) + vy (esize (player s)) - 1)
       \<and> roadAt (mapGrid s) (vx (pos (player s)) + vx (esize (player s)) - 1)
           (vy (pos (player s)) + vy (esize (player s)) - 1)"
    by (simp add: playerOnRoad_def isWalkable_roadAt)
  with isWalkable_roadAt[of p sz m] movePlayer_axes[of dx dy s1 s2] show ?thesis by blast
qed

lemma stripMap_rows: "length stripMap = 30" "stripMap ! 29 = replicate 50 ROAD"
  "stripMap ! 28 = replicate 50 GRASS"
  by (simp_all add: stripMap_def nth_append)

lemma strip_roadAt:
  "roadAt stripMap 10 930" "roadAt stripMap 23 930" "roadAt stripMap 10 943" "roadAt stripMap 23 943"
  "roadAt stripMap 14 930" "roadAt stripMap 27 930" "roadAt stripMap 14 943" "roadAt stripMap 27 943"
  "\<not> roadAt stripMap 14 926"
  by (simp_all add: roadAt_def Let_def stripMap_rows)

lemma strip_walkable:
  "isWalkable \<lparr>vx = 14, vy = 930\<rparr> \<lparr>vx = 14, vy = 14\<rparr> stripMap = Returns True"
  "isWalkable \<lparr>vx = 14, vy = 926\<rparr> \<lparr>vx = 14, vy = 14\<rparr> stripMap = Returns False"
  by (simp_all add: isWalkable_def corners_def Let_def tileAt_def stripMap_rows)

lemma stripStart_fields:
  "isPlaying stripStart" "\<not> isGameOver stripStart" "trafficPauseTimer stripStart = 0"
  "timer stripStart = 150" "rngIndex stripStart = 0" "mapGrid stripStart = stripMap"
  "pos (player stripStart) = \<lparr>vx = 10, vy = 930\<rparr>" "esize (player stripStart) = \<lparr>vx = 14, vy = 14\<rparr>"
  by (simp_all add: stripStart_def startRound_def quietGen_def)

lemma strip_move:
  "movePlayer 4 (- 4) stripStart
     = Returns (stripStart\<lparr>player := (player stripStart)\<lparr>pos := \<lparr>vx = 14, vy = 930\<rparr>\<rparr>\<rparr>)"
  by (simp add: movePlayer_def checkMove_def Let_def obind_def stripStart_def startRound_def
      quietGen_def strip_walkable)

lemma strip_player:
  "playerPhase (9 / 100) 0 \<lparr>ix = 1, iy = - 1, dash = False\<rparr> (stripStart\<lparr>timer := t, rngIndex := k\<rparr>)
      = Returns (stripStart\<lparr>timer := t, rngIndex := k,
                     player := (player stripStart)\<lparr>pos := \<lparr>vx = 14, vy = 930\<rparr>, direction := DirUp\<rparr>\<rparr>, False)"
  by (simp add: playerPhase_def stripStart_def startRound_def initialState_def
      quietGen_def desiredMove_def playerControl_def moveSound_def facePlayer_def
      boostStart_def boostTick_def Let_def movePlayer_def checkMove_def strip_walkable
      obind_def puddleCheck_def)

lemma strip_rest:
  "timersPhase dt (stripStart\<lparr>timer := t, rngIndex := k, player := (player stripStart)\<lparr>pos := p, direction := d\<rparr>\<rparr>)
     = stripStart\<lparr>timer := t, rngIndex := k, player := (player stripStart)\<lparr>pos := p, direction := d\<rparr>\<rparr>"
  "deliveryLogic 0 halfStream (stripStart\<lparr>timer := t, rngIndex := k, player := (player stripStart)\<lparr>pos := p, direction := d\<rparr>\<rparr>)
     = Returns (stripStart\<lparr>timer := t, rngIndex := k, player := (player stripStart)\<lparr>pos := p, direction := d\<rparr>\<rparr>)"
  "carPhase dt halfStream (stripStart\<lparr>timer := t, rngIndex := k, player := (player stripStart)\<lparr>pos := p, direction := d\<rparr>\<rparr>)
     = Returns (stripStart\<lparr>timer := t, rngIndex := k, player := (player stripStart)\<lparr>pos := p, direction := d\<rparr>\<rparr>, False)"
  "powerupPhase dt (stripStart\<lparr>timer := t, rngIndex := k, player := (player stripStart)\<lparr>pos := p, direction := d\<rparr>\<rparr>)
     = stripStart\<lparr>timer := t, rngIndex := k, player := (player stripStart)\<lparr>pos := p, direction := d\<rparr>\<rparr>"
  by (simp_all add: timersPhase_def deliveryLogic_def carPhase_def powerupPhase_def
      stripStart_def startRound_def initialState_def quietGen_def Let_def obind_def)

lemma strip_step: "runTicks halfStream [stepUpRight] stripStart = Returns stripMoved"
proof -
  have sp: "spawnPhase halfStream (stripStart\<lparr>timer := t\<rparr>)
      = Returns (stripStart\<lparr>timer := t, rngIndex := Suc 0\<rparr>)" if "0 < t" for t
    using quiet_spawn[of "stripStart\<lparr>timer := t\<rparr>"] that by (simp add: stripStart_fields)
  have pw: "powerupSpawn halfStream (stripStart\<lparr>timer := t, rngIndex := Suc 0\<rparr>)
      = Returns (stripStart\<lparr>timer := t, rngIndex := Suc (Suc 0)\<rparr>)" for t
    using quiet_powerupSpawn[of "stripStart\<lparr>timer := t, rngIndex := Suc 0\<rparr>"] by simp
  have two: "Suc (Suc 0) = 2" by simp
  have upd: "update (9 / 100) 0 \<lparr>ix = 1, iy = - 1, dash = False\<rparr> halfStream stripStart
               = Returns (stripStart\<lparr>timer := 150 - 9 / 100, rngIndex := Suc (Suc 0),
                     player := (player stripStart)\<lparr>pos := \<lparr>vx = 14, vy = 930\<rparr>, direction := DirUp\<rparr>\<rparr>)"
    by (simp add: update_def Let_def stripStart_fields sp pw strip_player strip_rest obind_def)
  show ?thesis
    unfolding stepUpRight_def stripMoved_def using upd by (simp add: two)
qed

theorem walkability_invariant_witness:
  "roadAt (mapGrid stripStart) 10 930 \<and> roadAt (mapGrid stripStart) 23 930
   \<and> roadAt (mapGrid stripStart) 10 943 \<and> roadAt (mapGrid stripStart) 23 943
   \<and> runTicks halfStream [stepUpRight] stripStart = Returns stripMoved
   \<and> pos (player stripMoved) = \<lparr>vx = 14, vy = 930\<rparr>
   \<and> roadAt (mapGrid stripMoved) 14 930 \<and> roadAt (mapGrid stripMoved) 27 930
   \<and> roadAt (mapGrid stripMoved) 14 943 \<and> roadAt (mapGrid stripMoved) 27 943
   \<and> isWalkable \<lparr>vx = 14, vy = 926\<rparr> \<lparr>vx = 14, vy = 14\<rparr> stripMap = Returns False
   \<and> \<not> roadAt stripMap 14 926
   \<and> movePlayer 4 (- 4) stripStart
       = Returns (stripStart\<lparr>player := (player stripStart)\<lparr>pos := \<lparr>vx = 14, vy = 930\<rparr>\<rparr>\<rparr>)"
proof -
  have st: "roadAt (mapGrid stripStart) (vx (pos (player stripStart))) (vy (pos (player stripStart)))"
    "roadAt (mapGrid stripStart) (vx (pos (player stripStart)) + vx (esize (player stripStart)) - 1)
       (vy (pos (player stripStart)))"
    "roadAt (mapGrid stripStart) (vx (pos (player stripStart)))
       (vy (pos (player stripStart)) + vy (esize (player stripStart)) - 1)"
    "roadAt (mapGrid stripStart) (vx (pos (player stripStart)) + vx (esize (player stripStart)) - 1)
       (vy (pos (player stripStart)) + vy (esize (player stripStart)) - 1)"
    by (simp_all add: stripStart_fields strip_roadAt)
  have mf: "mapGrid stripMoved = stripMap" "pos (player stripMoved) = \<lparr>vx = 14, vy = 930\<rparr>"
    "esize (player stripMoved) = \<lparr>vx = 14, vy = 14\<rparr>"
    by (simp_all add: stripMoved_def stripStart_fields)
  show ?thesis
    using walkability_invariant[OF st strip_step,
        of "\<lparr>vx = 14, vy = 926\<rparr>" "\<lparr>vx = 14, vy = 14\<rparr>" stripMap 4 "- 4" stripStart
           "stripStart\<lparr>player := (player stripStart)\<lparr>pos := \<lparr>vx = 14, vy = 930\<rparr>\<rparr>\<rparr>"]
      strip_step strip_move strip_walkable
    by (simp add: mf stripStart_fields strip_roadAt)
qed

subsection \<open>Health and invulnerability\<close>

lemma quietHealth_refl: "quietHealth s s"
  by (simp add: quietHealth_def)

lemma quietHealth_trans: "quietHealth a b \<Longrightarrow> quietHealth b c \<Longrightarrow> quietHealth a c"
  by (simp add: quietHealth_def)

lemma struck_quiet: "struck a b \<Longrightarrow> quietHealth b c \<Longrightarrow> struck a c"
  and quiet_struck: "quietHealth a b \<Longrightarrow> struck b c \<Longrightarrow> struck a c"
  by (simp_all add: quietHealth_def struck_def)

lemma coreSame_quiet: "coreSame s s' \<Longrightarrow> quietHealth s s'"
  by (simp add: coreSame_def quietHealth_def damageCount_def)

lemma takeHit_struck:
  "invulnerabilityTimer (player s) \<le> 0 \<Longrightarrow> ev = Splash \<or> ev = Hit \<Longrightarrow> takeHit ev s = (s', ret)
     \<Longrightarrow> struck s s'"
  by (auto simp: takeHit_def Let_def struck_def damageCount_def split: if_splits)

lemma moveSound_quiet: "quietHealth s (moveSound now inp s)"
  by (simp add: moveSound_def quietHealth_def damageCount_def split: prod.splits)

lemma facePlayer_inv:
  "invulnerabilityTimer (facePlayer inp p) = invulnerabilityTimer p"
  "health (facePlayer inp p) = health p"
  by (simp_all add: facePlayer_def Let_def)

lemma boostTick_inv:
  "invulnerabilityTimer (boostTick dt p) = invulnerabilityTimer p"
  "health (boostTick dt p) = health p"
  by (simp_all add: boostTick_def Let_def)

lemma boostStart_quiet: "quietHealth s (boostStart inp s)"
  by (simp add: boostStart_def Let_def quietHealth_def damageCount_def)

lemma playerControl_quiet: "quietHealth s (playerControl dt now inp s)"
proof -
  have a: "quietHealth s' (s'\<lparr>player := p\<rparr>)"
    if "invulnerabilityTimer p = invulnerabilityTimer (player s')" "health p = health (player s')" for s' p
    using that by (simp add: quietHealth_def damageCount_def)
  let ?s1 = "moveSound now inp s"
  let ?s2 = "?s1\<lparr>player := facePlayer inp (player ?s1)\<rparr>"
  let ?s3 = "boostStart inp ?s2"
  let ?s4 = "?s3\<lparr>player := boostTick dt (player ?s3)\<rparr>"
  have 1: "quietHealth s ?s1" by (rule moveSound_quiet)
  have 2: "quietHealth ?s1 ?s2" by (rule a) (simp_all add: facePlayer_inv)
  have 3: "quietHealth ?s2 ?s3" by (rule boostStart_quiet)
  have 4: "quietHealth ?s3 ?s4" by (rule a) (simp_all add: boostTick_inv)
  from 1 2 3 4 have "quietHealth s ?s4" by (meson quietHealth_trans)
  then show ?thesis by (simp add: playerControl_def Let_def)
qed

lemma movePlayer_quiet: "movePlayer dx dy s = Returns s' \<Longrightarrow> quietHealth s s'"
  by (auto simp: movePlayer_def Let_def obind_def quietHealth_def damageCount_def
      split: if_splits outcome.splits)

lemma puddleCheck_health:
  "puddleCheck s = (s', ret) \<Longrightarrow> (s' = s \<and> \<not> ret) \<or> struck s s'"
  using takeHit_struck[of s Splash s' ret]
  by (auto simp: puddleCheck_def Let_def split: if_splits)

lemma puddleCheck_guarded:
  "0 < invulnerabilityTimer (player s) \<Longrightarrow> puddleCheck s = (s, False)"
  by (simp add: puddleCheck_def Let_def)

lemma playerPhase_health:
  assumes "playerPhase dt now inp s = Returns (s', ret)"
  shows "(quietHealth s s' \<and> \<not> ret) \<or> struck s s'"
proof (cases "stunned (player s) > 0")
  case True
  with assms show ?thesis by (auto simp: playerPhase_def quietHealth_def damageCount_def)
next
  case False
  with assms obtain dx dy s1 where
    mv: "movePlayer dx dy (playerControl dt now inp s) = Returns s1"
    and pc: "puddleCheck s1 = (s', ret)"
    by (auto simp: playerPhase_def obind_Returns split: prod.splits)
  from playerControl_quiet[of s dt now inp] movePlayer_quiet[OF mv]
  have q: "quietHealth s s1" by (rule quietHealth_trans)
  from puddleCheck_health[OF pc] q show ?thesis
    by (auto intro: quiet_struck)
qed

lemma timersPhase_health:
  "damageCount (timersPhase dt s) = damageCount s"
  "health (player (timersPhase dt s)) = health (player s)"
  "invulnerabilityTimer (player (timersPhase dt s))
     = (if invulnerabilityTimer (player s) > 0 then invulnerabilityTimer (player s) - dt
        else invulnerabilityTimer (player s))"
  by (simp_all add: timersPhase_def Let_def damageCount_def)

lemma deliveryLogic_quiet: "deliveryLogic now rnd s = Returns s' \<Longrightarrow> quietHealth s s'"
  by (auto simp: deliveryLogic_def Let_def coreSame_def quietHealth_def damageCount_def
      split: option.splits if_splits dest!: activateCar_core)

lemma carAdvance_health:
  "carAdvance car s = (c', s', ret) \<Longrightarrow> (s' = s \<and> \<not> ret) \<or> struck s s'"
proof (cases "takeHit Hit s")
  case (Pair s1 r1)
  assume "carAdvance car s = (c', s', ret)"
  with takeHit_struck[of s Hit s1 r1] Pair show ?thesis
    by (auto simp: carAdvance_def Let_def split: if_splits)
qed

lemma carMerging_health:
  "carMerging s car = Returns (c', s', ret) \<Longrightarrow> (s' = s \<and> \<not> ret) \<or> struck s s'"
proof (cases "takeHit Hit s")
  case (Pair s1 r1)
  assume "carMerging s car = Returns (c', s', ret)"
  with takeHit_struck[of s Hit s1 r1] Pair show ?thesis
    by (auto simp: carMerging_def Let_def obind_Returns split: if_splits)
qed

lemma carDriving_health:
  "carDriving rnd s car = Returns (c', s', ret) \<Longrightarrow> (quietHealth s s' \<and> \<not> ret) \<or> struck s s'"
  by (auto simp: carDriving_def Let_def obind_Returns quietHealth_refl
      split: if_splits dest!: carTurn_core coreSame_quiet carAdvance_health
      intro: quiet_struck)

lemma carStep_health:
  "carStep dt rnd s car = Returns (c', s', ret) \<Longrightarrow> (quietHealth s s' \<and> \<not> ret) \<or> struck s s'"
  using carMerging_health[of s car c' s' ret] carDriving_health[of rnd s car c' s' ret]
  by (auto simp: carStep_def obind_Returns quietHealth_refl split: if_splits)

lemma carLoop_guarded:
  "0 < invulnerabilityTimer (player s) \<Longrightarrow> carLoop dt rnd cs s = Returns (cs', s', ret)
     \<Longrightarrow> quietHealth s s' \<and> \<not> ret"
proof (induction cs arbitrary: s cs')
  case Nil
  then show ?case by (simp add: quietHealth_refl)
next
  case (Cons car rest)
  from Cons.prems(2) obtain c1 s1 r1 where st: "carStep dt rnd s car = Returns (c1, s1, r1)"
    by (auto split: outcome.splits)
  from carStep_health[OF st] Cons.prems(1) have q: "quietHealth s s1" and nr: "\<not> r1"
    by (auto simp: struck_def)
  with Cons.prems(2) st obtain rest1 where
    l: "carLoop dt rnd rest s1 = Returns (rest1, s', ret)"
    by (auto split: outcome.splits)
  from q Cons.prems(1) have "0 < invulnerabilityTimer (player s1)" by (simp add: quietHealth_def)
  from Cons.IH[OF this l] q show ?case by (auto intro: quietHealth_trans)
qed

lemma carLoop_health:
  "carLoop dt rnd cs s = Returns (cs', s', ret) \<Longrightarrow> (quietHealth s s' \<and> \<not> ret) \<or> struck s s'"
proof (induction cs arbitrary: s cs')
  case Nil
  then show ?case by (simp add: quietHealth_refl)
next
  case (Cons car rest)
  from Cons.prems obtain c1 s1 r1 where st: "carStep dt rnd s car = Returns (c1, s1, r1)"
    by (auto split: outcome.splits)
  note one = carStep_health[OF st]
  show ?case
  proof (cases r1)
    case True
    with Cons.prems st one show ?thesis by auto
  next
    case False
    with Cons.prems st obtain rest1 where
      l: "carLoop dt rnd rest s1 = Returns (rest1, s', ret)"
      by (auto split: outcome.splits)
    from one show ?thesis
    proof
      assume "quietHealth s s1 \<and> \<not> r1"
      with Cons.IH[OF l] show ?thesis by (auto intro: quietHealth_trans quiet_struck)
    next
      assume s: "struck s s1"
      then have "0 < invulnerabilityTimer (player s1)" by (simp add: struck_def)
      from carLoop_guarded[OF this l] s show ?thesis by (auto intro: struck_quiet)
    qed
  qed
qed

lemma quietHealth_cars: "quietHealth s (s1\<lparr>cars := cs\<rparr>) = quietHealth s s1"
  and struck_cars: "struck s (s1\<lparr>cars := cs\<rparr>) = struck s s1"
  by (simp_all add: quietHealth_def struck_def damageCount_def)

lemma carPhase_health:
  "carPhase dt rnd s = Returns (s', ret) \<Longrightarrow> (quietHealth s s' \<and> \<not> ret) \<or> struck s s'"
  by (auto simp: carPhase_def obind_Returns quietHealth_cars struck_cars dest!: carLoop_health)

lemma applyPowerup_health:
  "health (player s) \<le> maxHealth (player s) \<Longrightarrow>
   damageCount (applyPowerup k s) = damageCount s
   \<and> invulnerabilityTimer (player (applyPowerup k s)) = invulnerabilityTimer (player s)
   \<and> health (player s) \<le> health (player (applyPowerup k s))
   \<and> health (player (applyPowerup k s)) \<le> maxHealth (player (applyPowerup k s))"
  by (auto simp: applyPowerup_def damageCount_def split: option.splits PowerUpType.splits)

lemma powerupLoop_health:
  "health (player s) \<le> maxHealth (player s) \<Longrightarrow> powerupLoop dt pups s = (kept, s') \<Longrightarrow>
   damageCount s' = damageCount s
   \<and> invulnerabilityTimer (player s') = invulnerabilityTimer (player s)
   \<and> health (player s) \<le> health (player s')"
proof (induction pups arbitrary: s kept)
  case Nil
  then show ?case by simp
next
  case (Cons pup pups)
  let ?pup1 = "pup\<lparr>life := map_option (\<lambda>l. l - dt) (life pup)\<rparr>"
  show ?case
  proof (cases "case life ?pup1 of Some l \<Rightarrow> l \<le> 0 | None \<Rightarrow> False")
    case True
    with Cons.prems(2) have "powerupLoop dt pups s = (kept, s')" by (simp add: Let_def)
    from Cons.IH[OF Cons.prems(1) this] show ?thesis .
  next
    case alive: False
    show ?thesis
    proof (cases "checkCollision (player s) ?pup1")
      case True
      let ?s0 = "s\<lparr>audioLog := audioLog s @ [Powerup]\<rparr>"
      let ?s1 = "applyPowerup (kind ?pup1) ?s0"
      from True alive Cons.prems(2) have l: "powerupLoop dt pups ?s1 = (kept, s')"
        by (simp add: Let_def)
      have h0: "health (player ?s0) \<le> maxHealth (player ?s0)" using Cons.prems(1) by simp
      note a = applyPowerup_health[OF h0, of "kind ?pup1"]
      from a have "health (player ?s1) \<le> maxHealth (player ?s1)" by blast
      from Cons.IH[OF this l] a show ?thesis by (simp add: damageCount_def)
    next
      case False
      with alive Cons.prems(2) obtain kept1 where "powerupLoop dt pups s = (kept1, s')"
        by (auto simp: Let_def split: prod.splits)
      from Cons.IH[OF Cons.prems(1) this] show ?thesis .
    qed
  qed
qed

lemma powerupPhase_health:
  assumes "health (player s) \<le> maxHealth (player s)"
  shows "damageCount (powerupPhase dt s) = damageCount s
   \<and> invulnerabilityTimer (player (powerupPhase dt s)) = invulnerabilityTimer (player s)
   \<and> health (player s) \<le> health (player (powerupPhase dt s))"
proof (cases "powerupLoop dt (powerups s) s")
  case (Pair kept s1)
  from powerupLoop_health[OF assms Pair] Pair show ?thesis
    by (simp add: powerupPhase_def damageCount_def)
qed

lemma running_health_le: "running s \<Longrightarrow> health (player s) \<le> maxHealth (player s)"
  by (simp add: running_def)

lemma update_health:
  assumes inv: "roundInv s" and dt: "dt \<le> 1 / 10"
    and upd: "update dt now inp rnd s = Returns s'"
  shows "(damageCount s' = damageCount s \<and> health (player s) \<le> health (player s')
            \<and> (\<not> isPlaying s' \<or> isGameOver s'
                \<or> invulnerabilityTimer (player s')
                     = (if 0 < invulnerabilityTimer (player s)
                        then invulnerabilityTimer (player s) - dt
                        else invulnerabilityTimer (player s))))
       \<or> ((invulnerabilityTimer (player s) \<le> 0 \<or> invulnerabilityTimer (player s) \<le> dt)
            \<and> damageCount s' = damageCount s + 1
            \<and> (invulnerabilityTimer (player s') = 2 \<or> invulnerabilityTimer (player s') = 2 - dt)
            \<and> health (player s) - 1 \<le> health (player s'))"
proof -
  from update_cases[OF upd] consider
    (same) "s' = s" "\<not> isPlaying s \<or> isGameOver s"
    | (timeout) "s' = s\<lparr>timer := timer s - dt, isGameOver := True, gameOverReason := ''TIMEOUT''\<rparr>"
    | (run) s3 s4 s5 ret where "\<not> isGameOver s" "0 < timer s - dt"
        "spawnPhase rnd (pauseTick dt s) = Returns s3"
        "powerupSpawn rnd s3 = Returns s4" "playerPhase dt now inp s4 = Returns (s5, ret)"
        "if ret then s' = s5
         else (\<exists>s6 s7 ret2. deliveryLogic now rnd (timersPhase dt s5) = Returns s6
                 \<and> carPhase dt rnd s6 = Returns (s7, ret2)
                 \<and> s' = (if ret2 then s7 else powerupPhase dt s7))"
    by blast
  then show ?thesis
  proof cases
    case same
    then show ?thesis by auto
  next
    case timeout
    then show ?thesis by (simp add: damageCount_def)
  next
    case run
    from inv run(1) have r0: "running s"
      by (auto simp: roundInv_def overHealth_def overTimeout_def)
    with run(2) have rp: "running (pauseTick dt s)" by (simp add: running_def pauseTick_def)
    with spawnPhase_core[OF run(3)] have r3: "running s3" by (simp add: coreSame_running)
    with powerupSpawn_core[OF run(4)] have r4: "running s4" by (simp add: coreSame_running)
    have "quietHealth s (pauseTick dt s)" by (simp add: quietHealth_def pauseTick_def damageCount_def)
    with coreSame_quiet[OF spawnPhase_core[OF run(3)]] coreSame_quiet[OF powerupSpawn_core[OF run(4)]]
    have q4: "quietHealth s s4" by (meson quietHealth_trans)
    note p5 = playerPhase_health[OF run(5)]
    note c5 = playerPhase_cases[OF r4 run(5)]
    show ?thesis
    proof (cases ret)
      case True
      with p5 have "struck s4 s5" by auto
      with q4 have "struck s s5" by (rule quiet_struck)
      with True run(6) show ?thesis by (simp add: struck_def)
    next
      case nr: False
      with run(6) obtain s6 s7 ret2 where
        d: "deliveryLogic now rnd (timersPhase dt s5) = Returns s6"
        and c: "carPhase dt rnd s6 = Returns (s7, ret2)"
        and fin: "s' = (if ret2 then s7 else powerupPhase dt s7)" by auto
      from nr c5 have "running (timersPhase dt s5)" by (simp add: timersPhase_running)
      from deliveryLogic_running[OF this d] have r6: "running s6" .
      note c7 = carPhase_cases[OF r6 c]
      note q6 = deliveryLogic_quiet[OF d]
      note h7 = carPhase_health[OF c]
      define i5 where "i5 = invulnerabilityTimer (player s5)"
      define i0 where "i0 = invulnerabilityTimer (player s)"
      have i6: "invulnerabilityTimer (player s6) = (if i5 > 0 then i5 - dt else i5)"
        and n6: "damageCount s6 = damageCount s5" and e6: "health (player s6) = health (player s5)"
        using q6 by (simp_all add: quietHealth_def timersPhase_health i5_def)
      have fin3: "damageCount s' = damageCount s7 \<and>
            invulnerabilityTimer (player s') = invulnerabilityTimer (player s7) \<and>
            health (player s7) \<le> health (player s')"
      proof (cases ret2)
        case True
        with fin show ?thesis by simp
      next
        case False
        with c7 have "running s7" by simp
        from powerupPhase_health[OF running_health_le[OF this], of dt] False fin
        show ?thesis by simp
      qed
      then have fin_count: "damageCount s' = damageCount s7"
        and fin_inv: "invulnerabilityTimer (player s') = invulnerabilityTimer (player s7)"
        and fin_health: "health (player s7) \<le> health (player s')" by simp_all
      from p5 show ?thesis
      proof
        assume "quietHealth s4 s5 \<and> \<not> ret"
        with q4 have q5: "quietHealth s s5" by (meson quietHealth_trans)
        then have i5s: "i5 = i0" by (simp add: quietHealth_def i5_def i0_def)
        from q5 have n5: "damageCount s5 = damageCount s" and e5: "health (player s5) = health (player s)"
          by (simp_all add: quietHealth_def)
        from h7 show ?thesis
        proof
          assume "quietHealth s6 s7 \<and> \<not> ret2"
          then have "damageCount s7 = damageCount s6" "health (player s7) = health (player s6)"
            "invulnerabilityTimer (player s7) = invulnerabilityTimer (player s6)"
            by (simp_all add: quietHealth_def)
          with i6 n6 e6 i5s n5 e5 fin_count fin_inv fin_health
          have "damageCount s' = damageCount s" "health (player s) \<le> health (player s')"
            "invulnerabilityTimer (player s') = (if 0 < i0 then i0 - dt else i0)"
            by simp_all
          then show ?thesis unfolding i0_def by blast
        next
          assume st: "struck s6 s7"
          then have a: "invulnerabilityTimer (player s6) \<le> 0" "damageCount s7 = damageCount s6 + 1"
            "invulnerabilityTimer (player s7) = 2" "health (player s7) = health (player s6) - 1"
            by (simp_all add: struck_def)
          from a(1) i6 i5s have "i0 \<le> 0 \<or> i0 \<le> dt" by (auto split: if_splits)
          moreover from a n6 e6 n5 e5 fin_count fin_inv fin_health
          have "damageCount s' = damageCount s + 1" "invulnerabilityTimer (player s') = 2"
            "health (player s) - 1 \<le> health (player s')" by simp_all
          ultimately show ?thesis unfolding i0_def by blast
        qed
      next
        assume "struck s4 s5"
        with q4 have s5: "struck s s5" by (rule quiet_struck)
        then have a: "i0 \<le> 0" "damageCount s5 = damageCount s + 1" "i5 = 2"
          "health (player s5) = health (player s) - 1"
          by (simp_all add: struck_def i5_def i0_def)
        with i6 have i6v: "invulnerabilityTimer (player s6) = 2 - dt" by simp
        with dt have "0 < invulnerabilityTimer (player s6)" by simp
        with h7 have "quietHealth s6 s7" by (auto simp: struck_def)
        then have "damageCount s7 = damageCount s6" "health (player s7) = health (player s6)"
            "invulnerabilityTimer (player s7) = invulnerabilityTimer (player s6)"
            by (simp_all add: quietHealth_def)
        with a n6 e6 i6v fin_count fin_inv fin_health
        have "damageCount s' = damageCount s + 1" "invulnerabilityTimer (player s') = 2 - dt"
            "health (player s) - 1 \<le> health (player s')" by simp_all
        with a(1) show ?thesis unfolding i0_def by blast
      qed
    qed
  qed
qed




text \<open>
  Claim C3. In every reachable state the health is between 0 and \<open>maxHealth\<close>, and
  health 0 means that the round is over with reason HEALTH. A tick takes at most one
  heart, and the state it returns is within the same bounds and over with reason HEALTH
  when its health is 0: the round ends in the tick that takes the last heart.
\<close>

theorem health_bounds:
  assumes "reachable s"
  shows "0 \<le> health (player s) \<and> health (player s) \<le> maxHealth (player s)
       \<and> (health (player s) = 0 \<longrightarrow> isGameOver s \<and> gameOverReason s = ''HEALTH'')
       \<and> (update (loopDt time lastTime) now inp rnd s = Returns s'
            \<longrightarrow> health (player s) - 1 \<le> health (player s')
                \<and> health (player s') \<le> maxHealth (player s')
                \<and> (health (player s') = 0 \<longrightarrow> isGameOver s' \<and> gameOverReason s' = ''HEALTH''))"
proof -
  note inv = reachable_roundInv[OF assms]
  have a: "0 \<le> health (player x) \<and> health (player x) \<le> maxHealth (player x)
       \<and> (health (player x) = 0 \<longrightarrow> isGameOver x \<and> gameOverReason x = ''HEALTH'')"
    if "roundInv x" for x
    using that by (auto simp: roundInv_def running_def overHealth_def overTimeout_def)
  have "health (player s) - 1 \<le> health (player s')
                \<and> health (player s') \<le> maxHealth (player s')
                \<and> (health (player s') = 0 \<longrightarrow> isGameOver s' \<and> gameOverReason s' = ''HEALTH'')"
    if u: "update (loopDt time lastTime) now inp rnd s = Returns s'"
  proof -
    from update_health[OF inv loopDt_clamped u]
    have "health (player s) - 1 \<le> health (player s')" by auto
    with a[OF update_roundInv[OF inv loopDt_clamped u]] show ?thesis by simp
  qed
  with a[OF inv] show ?thesis by blast
qed

lemma wetAt_fields:
  "isPlaying (wetAt t k h i lg)" "\<not> isGameOver (wetAt t k h i lg)"
  "trafficPauseTimer (wetAt t k h i lg) = 0"
  "timer (wetAt t k h i lg) = t" "rngIndex (wetAt t k h i lg) = k"
  "health (player (wetAt t k h i lg)) = h" "invulnerabilityTimer (player (wetAt t k h i lg)) = i"
  "audioLog (wetAt t k h i lg) = lg" "maxHealth (player (wetAt t k h i lg)) = 3"
  "(wetAt t k h i lg)\<lparr>timer := t'\<rparr> = wetAt t' k h i lg"
  "(wetAt t k h i lg)\<lparr>rngIndex := k'\<rparr> = wetAt t k' h i lg"
  by (simp_all add: wetAt_def wetStart_def startRound_def)

lemma wetStart_wetAt: "wetStart = wetAt 150 0 3 0 []"
  by (simp add: wetAt_def wetStart_def startRound_def quietGen_def initialState_def)

lemma wet_player_safe:
  "0 < i \<Longrightarrow> playerPhase dt 0 noInput (wetAt t k h i lg) = Returns (wetAt t k h i lg, False)"
  by (simp add: playerPhase_def wetAt_def wetStart_def startRound_def initialState_def
      quietGen_def desiredMove_def noInput_def playerControl_def moveSound_def facePlayer_def
      boostStart_def boostTick_def Let_def movePlayer_def checkMove_def quiet_walkable obind_def
      puddleCheck_def)

lemma wet_player_hit:
  "i \<le> 0 \<Longrightarrow> 1 < h \<Longrightarrow>
   playerPhase dt 0 noInput (wetAt t k h i lg) = Returns (wetAt t k (h - 1) 2 (lg @ [Splash]), False)"
  by (simp add: playerPhase_def wetAt_def wetStart_def startRound_def initialState_def
      quietGen_def desiredMove_def noInput_def playerControl_def moveSound_def facePlayer_def
      boostStart_def boostTick_def Let_def movePlayer_def checkMove_def quiet_walkable obind_def
      puddleCheck_def checkCollision_def takeHit_def)

lemma wet_player_kill:
  "i \<le> 0 \<Longrightarrow> h \<le> 1 \<Longrightarrow>
   playerPhase dt 0 noInput (wetAt t k h i lg)
     = Returns ((wetAt t k (h - 1) 2 (lg @ [Splash]))\<lparr>isGameOver := True, gameOverReason := ''HEALTH''\<rparr>,
                True)"
  by (simp add: playerPhase_def wetAt_def wetStart_def startRound_def initialState_def
      quietGen_def desiredMove_def noInput_def playerControl_def moveSound_def facePlayer_def
      boostStart_def boostTick_def Let_def movePlayer_def checkMove_def quiet_walkable obind_def
      puddleCheck_def checkCollision_def takeHit_def)

lemma wet_timers:
  "0 < i \<Longrightarrow> timersPhase dt (wetAt t k h i lg) = wetAt t k h (i - dt) lg"
  "i \<le> 0 \<Longrightarrow> timersPhase dt (wetAt t k h i lg) = wetAt t k h i lg"
  by (simp_all add: timersPhase_def wetAt_def wetStart_def startRound_def initialState_def
      quietGen_def Let_def)

lemma wet_rest:
  "deliveryLogic 0 halfStream (wetAt t k h i lg) = Returns (wetAt t k h i lg)"
  "carPhase dt halfStream (wetAt t k h i lg) = Returns (wetAt t k h i lg, False)"
  "powerupPhase dt (wetAt t k h i lg) = wetAt t k h i lg"
  by (simp_all add: deliveryLogic_def carPhase_def powerupPhase_def wetAt_def
      wetStart_def startRound_def initialState_def quietGen_def Let_def obind_def)

lemma wet_spawns:
  assumes "0 < t"
  shows "spawnPhase halfStream (wetAt t k h i lg) = Returns (wetAt t (Suc k) h i lg)"
    and "powerupSpawn halfStream (wetAt t (Suc k) h i lg) = Returns (wetAt t (Suc (Suc k)) h i lg)"
  using quiet_spawn[of "wetAt t k h i lg"] quiet_powerupSpawn[of "wetAt t (Suc k) h i lg"] assms
  by (simp_all add: wetAt_fields)

lemma wet_tick_safe:
  assumes "dt < t" "0 < i"
  shows "update dt 0 noInput halfStream (wetAt t k h i lg)
           = Returns (wetAt (t - dt) (k + 2) h (i - dt) lg)"
proof -
  from assms(1) have p: "0 < t - dt" by simp
  show ?thesis
    using assms
    by (simp add: update_def Let_def wetAt_fields wet_spawns[OF p] wet_player_safe wet_timers
        wet_rest obind_def)
qed

lemma wet_tick_hit:
  assumes "dt < t" "i \<le> 0" "1 < h" "dt < 2"
  shows "update dt 0 noInput halfStream (wetAt t k h i lg)
           = Returns (wetAt (t - dt) (k + 2) (h - 1) (2 - dt) (lg @ [Splash]))"
proof -
  from assms(1) have p: "0 < t - dt" by simp
  show ?thesis
    using assms
    by (simp add: update_def Let_def wetAt_fields wet_spawns[OF p] wet_player_hit wet_timers
        wet_rest obind_def)
qed

lemma wet_tick_kill:
  assumes "dt < t" "i \<le> 0" "h \<le> 1"
  shows "update dt 0 noInput halfStream (wetAt t k h i lg)
           = Returns ((wetAt (t - dt) (k + 2) (h - 1) 2 (lg @ [Splash]))
                        \<lparr>isGameOver := True, gameOverReason := ''HEALTH''\<rparr>)"
proof -
  from assms(1) have p: "0 < t - dt" by simp
  show ?thesis
    using assms
    by (simp add: update_def Let_def wetAt_fields wet_spawns[OF p] wet_player_kill obind_def)
qed

lemma wet_run_safe:
  "real n * (1 / 10) < t \<Longrightarrow> real n * (1 / 10) < i + 1 / 10 \<Longrightarrow>
   runTicks halfStream (replicate n wetFrame) (wetAt t k h i lg)
     = Returns (wetAt (t - real n * (1 / 10)) (k + 2 * n) h (i - real n * (1 / 10)) lg)"
proof (induction n arbitrary: t k i)
  case 0
  show ?case by simp
next
  case (Suc n)
  have e: "real (Suc n) * (1 / 10) = real n * (1 / 10) + 1 / 10" by (simp add: algebra_simps)
  have nn: "0 \<le> real n * (1 / 10)" by simp
  from Suc.prems e nn have lt: "1 / 10 < t" and ip: "0 < i"
    and more: "real n * (1 / 10) < t - 1 / 10" "real n * (1 / 10) < (i - 1 / 10) + 1 / 10"
    by linarith+
  have eq: "t - 1 / 10 - real n * (1 / 10) = t - real (Suc n) * (1 / 10)"
    "i - 1 / 10 - real n * (1 / 10) = i - real (Suc n) * (1 / 10)"
    "k + 2 + 2 * n = k + 2 * Suc n"
    unfolding e by simp_all
  have "runTicks halfStream (replicate (Suc n) wetFrame) (wetAt t k h i lg)
      = runTicks halfStream (replicate n wetFrame) (wetAt (t - 1 / 10) (k + 2) h (i - 1 / 10) lg)"
    using wet_tick_safe[OF lt ip, of k h lg] by (simp add: wetFrame_def)
  also have "\<dots> = Returns (wetAt (t - 1 / 10 - real n * (1 / 10)) (k + 2 + 2 * n) h
                              (i - 1 / 10 - real n * (1 / 10)) lg)"
    by (rule Suc.IH[OF more])
  finally show ?case unfolding eq .
qed


lemma reachable_wetStart: "reachable wetStart"
proof -
  have "selectTarget zeroStream 0 []
      = Returns (genHouses (quietGen\<lparr>genPuddles := [\<lparr>pos = \<lparr>vx = 0, vy = 928\<rparr>, esize = \<lparr>vx = 32, vy = 32\<rparr>\<rparr>]\<rparr>))"
    by (simp add: selectTarget_def quietGen_def)
  then show ?thesis
    unfolding wetStart_def by (intro reachable.start[of "[]"]) simp_all
qed

lemma wet_first: "update (1 / 10) 0 noInput halfStream wetStart = Returns wetHit"
proof -
  have e: "(0::nat) + 2 = 2" "(3::int) - 1 = 2" "(2::real) - 1 / 10 = 19 / 10"
    "([]::AudioEvent list) @ [Splash] = [Splash]" by simp_all
  have "update (1 / 10) 0 noInput halfStream (wetAt 150 0 3 0 [])
      = Returns (wetAt (150 - 1 / 10) (0 + 2) (3 - 1) (2 - 1 / 10) ([] @ [Splash]))"
    by (rule wet_tick_hit) simp_all
  then show ?thesis unfolding e wetStart_wetAt wetHit_def .
qed


lemma clamped_replicate: "\<forall>g\<in>set (replicate n wetFrame). frameClamped g"
  by (simp add: frameClamped_def wetFrame_def)


lemma wet_to_over: "runTicks halfStream (replicate 41 wetFrame) wetStart = Returns wetOver"
proof -
  have "replicate (1 + (19 + (1 + (19 + 1)))) wetFrame
      = replicate 1 wetFrame @ replicate 19 wetFrame @ replicate 1 wetFrame
          @ replicate 19 wetFrame @ replicate 1 wetFrame"
    by (simp only: replicate_add)
  moreover have "(1::nat) + (19 + (1 + (19 + 1))) = 41" by simp
  moreover have "replicate 1 wetFrame = [wetFrame]" by simp
  ultimately have split: "replicate 41 wetFrame
      = [wetFrame] @ replicate 19 wetFrame @ [wetFrame] @ replicate 19 wetFrame @ [wetFrame]"
    by simp
  have e1: "(0::nat) + 2 = 2" "(3::int) - 1 = 2" "(2::real) - 1 / 10 = 19 / 10"
    "([]::AudioEvent list) @ [Splash] = [Splash]" by simp_all
  have "update (1 / 10) 0 noInput halfStream (wetAt 150 0 3 0 [])
      = Returns (wetAt (150 - 1 / 10) (0 + 2) (3 - 1) (2 - 1 / 10) ([] @ [Splash]))"
    by (rule wet_tick_hit) simp_all
  then have 1: "runTicks halfStream [wetFrame] (wetAt 150 0 3 0 [])
      = Returns (wetAt (150 - 1 / 10) 2 2 (19 / 10) [Splash])"
    unfolding e1 by (simp add: wetFrame_def)
  have e2: "(150::real) - 1 / 10 - real 19 * (1 / 10) = 148"
    "(19::real) / 10 - real 19 * (1 / 10) = 0" "(2::nat) + 2 * 19 = 40" by simp_all
  have "runTicks halfStream (replicate 19 wetFrame) (wetAt (150 - 1 / 10) 2 2 (19 / 10) [Splash])
      = Returns (wetAt (150 - 1 / 10 - real 19 * (1 / 10)) (2 + 2 * 19) 2
                   (19 / 10 - real 19 * (1 / 10)) [Splash])"
    by (rule wet_run_safe) simp_all
  then have 2: "runTicks halfStream (replicate 19 wetFrame) (wetAt (150 - 1 / 10) 2 2 (19 / 10) [Splash])
      = Returns (wetAt 148 40 2 0 [Splash])"
    unfolding e2 .
  have e3: "(40::nat) + 2 = 42" "(2::int) - 1 = 1" "[Splash] @ [Splash] = [Splash, Splash]"
    by simp_all
  have "update (1 / 10) 0 noInput halfStream (wetAt 148 40 2 0 [Splash])
      = Returns (wetAt (148 - 1 / 10) (40 + 2) (2 - 1) (2 - 1 / 10) ([Splash] @ [Splash]))"
    by (rule wet_tick_hit) simp_all
  then have 3: "runTicks halfStream [wetFrame] (wetAt 148 40 2 0 [Splash])
      = Returns (wetAt (148 - 1 / 10) 42 1 (19 / 10) [Splash, Splash])"
    unfolding e3 e1 by (simp add: wetFrame_def)
  have e4: "(148::real) - 1 / 10 - real 19 * (1 / 10) = 146" "(42::nat) + 2 * 19 = 80" by simp_all
  have "runTicks halfStream (replicate 19 wetFrame) (wetAt (148 - 1 / 10) 42 1 (19 / 10) [Splash, Splash])
      = Returns (wetAt (148 - 1 / 10 - real 19 * (1 / 10)) (42 + 2 * 19) 1
                   (19 / 10 - real 19 * (1 / 10)) [Splash, Splash])"
    by (rule wet_run_safe) simp_all
  then have 4: "runTicks halfStream (replicate 19 wetFrame) (wetAt (148 - 1 / 10) 42 1 (19 / 10) [Splash, Splash])
      = Returns (wetAt 146 80 1 0 [Splash, Splash])"
    unfolding e2 e4 .
  have e5: "(80::nat) + 2 = 82" "(1::int) - 1 = 0" "[Splash, Splash] @ [Splash] = [Splash, Splash, Splash]"
    "(146::real) - 1 / 10 = 150 - 41 / 10" by simp_all
  have "update (1 / 10) 0 noInput halfStream (wetAt 146 80 1 0 [Splash, Splash])
      = Returns ((wetAt (146 - 1 / 10) (80 + 2) (1 - 1) 2 ([Splash, Splash] @ [Splash]))
                   \<lparr>isGameOver := True, gameOverReason := ''HEALTH''\<rparr>)"
    by (rule wet_tick_kill) simp_all
  then have 5: "runTicks halfStream [wetFrame] (wetAt 146 80 1 0 [Splash, Splash]) = Returns wetOver"
    unfolding e5 wetOver_def by (simp add: wetFrame_def)
  show ?thesis
    unfolding split runTicks_append wetStart_wetAt 1 obind_def outcome.case 2 3 4 5 ..
qed

lemma reachable_wetOver: "reachable wetOver"
  using reachable_wetStart clamped_replicate wet_to_over by (rule reachable_runTicks)

theorem health_bounds_witness:
  "reachable wetStart \<and> health (player wetStart) = 3 \<and> maxHealth (player wetStart) = 3
   \<and> update (loopDt 100 0) 0 noInput halfStream wetStart = Returns wetHit
   \<and> health (player wetHit) = 2
   \<and> reachable wetOver \<and> health (player wetOver) = 0
   \<and> isGameOver wetOver \<and> gameOverReason wetOver = ''HEALTH''"
proof -
  have dt: "loopDt 100 0 = 1 / 10" by (simp add: loopDt_def)
  show ?thesis
    using health_bounds[OF reachable_wetStart, of 100 0 0 noInput halfStream wetHit]
      health_bounds[OF reachable_wetOver, of 0 0 0 noInput halfStream wetOver]
      reachable_wetStart reachable_wetOver wet_first
    by (simp add: dt wetOver_def wetHit_def wetAt_fields wetStart_wetAt)
qed

subsection \<open>Frozen cars and dead ends\<close>

lemma fleetSame_refl: "fleetSame s s"
  by (simp add: fleetSame_def)

lemma fleetSame_trans: "fleetSame a b \<Longrightarrow> fleetSame b c \<Longrightarrow> fleetSame a c"
  by (simp add: fleetSame_def)

lemma takeHit_fleet: "takeHit ev s = (s', ret) \<Longrightarrow> fleetSame s s'"
  by (auto simp: takeHit_def Let_def fleetSame_def split: if_splits)













lemma carLoop_fleet:
  "carLoop dt rnd cs s = Returns (cs', s', ret) \<Longrightarrow> fleetSame s s'"
proof (induction cs arbitrary: s cs')
  case Nil
  then show ?case by (simp add: fleetSame_refl)
next
  case (Cons car rest)
  from Cons.prems obtain c1 s1 r1 where st: "carStep dt rnd s car = Returns (c1, s1, r1)"
    by (auto split: outcome.splits)
  have one: "fleetSame s s1"
  proof -
    have t: "fleetSame s x" if "takeHit Hit s = (x, r)" for x r
      using takeHit_fleet[OF that] .
    have adv: "fleetSame a b" if "carAdvance c a = (c', b, r)" for a b c c' r
    proof (cases "takeHit Hit a")
      case (Pair a1 r1)
      with that takeHit_fleet[OF Pair] show ?thesis
        by (auto simp: carAdvance_def Let_def fleetSame_refl split: if_splits)
    qed
    have turn: "fleetSame a b" if "carTurn rnd a c tx ty x y = Returns (c', b, r)" for a b c c' r tx ty x y
      using that
      by (auto simp: carTurn_def Let_def obind_def fleetSame_def
          split: option.splits if_splits prod.splits outcome.splits)
    have drv: "fleetSame s s1" if "carDriving rnd s car = Returns (c1, s1, r1)"
      using that
      by (auto simp: carDriving_def Let_def obind_Returns fleetSame_refl
          split: if_splits dest!: turn adv intro: fleetSame_trans)
    have mrg: "fleetSame s s1" if "carMerging s car = Returns (c1, s1, r1)"
    proof (cases "takeHit Hit s")
      case (Pair a1 r1)
      with that takeHit_fleet[OF Pair] show ?thesis
        by (auto simp: carMerging_def Let_def obind_Returns fleetSame_refl split: if_splits)
    qed
    from st drv mrg show ?thesis
      by (auto simp: carStep_def obind_Returns fleetSame_refl split: if_splits)
  qed
  show ?case
  proof (cases r1)
    case True
    with Cons.prems st one show ?thesis by auto
  next
    case False
    with Cons.prems st obtain rest1 where
      "carLoop dt rnd rest s1 = Returns (rest1, s', ret)"
      by (auto split: outcome.splits)
    from Cons.IH[OF this] one show ?thesis by (meson fleetSame_trans)
  qed
qed









lemma powerupPhase_over: "isGameOver (powerupPhase dt s) = isGameOver s"
proof -
  have a: "isGameOver (applyPowerup k x) = isGameOver x" for k x
    by (auto simp: applyPowerup_def split: option.splits PowerUpType.splits)
  have "powerupLoop dt pups x = (kept, y) \<Longrightarrow> isGameOver y = isGameOver x" for pups x kept y
  proof (induction pups arbitrary: x kept)
    case Nil
    then show ?case by simp
  next
    case (Cons pup pups)
    let ?pup1 = "pup\<lparr>life := map_option (\<lambda>l. l - dt) (life pup)\<rparr>"
    show ?case
    proof (cases "case life ?pup1 of Some l \<Rightarrow> l \<le> 0 | None \<Rightarrow> False")
      case True
      with Cons.prems have "powerupLoop dt pups x = (kept, y)" by (simp add: Let_def)
      from Cons.IH[OF this] show ?thesis .
    next
      case alive: False
      show ?thesis
      proof (cases "checkCollision (player x) ?pup1")
        case True
        let ?s1 = "applyPowerup (kind ?pup1) (x\<lparr>audioLog := audioLog x @ [Powerup]\<rparr>)"
        from True alive Cons.prems have "powerupLoop dt pups ?s1 = (kept, y)"
          by (simp add: Let_def)
        from Cons.IH[OF this] show ?thesis by (simp add: a)
      next
        case False
        with alive Cons.prems obtain kept1 where "powerupLoop dt pups x = (kept1, y)"
          by (auto simp: Let_def split: prod.splits)
        from Cons.IH[OF this] show ?thesis .
      qed
    qed
  qed
  then show ?thesis by (cases "powerupLoop dt (powerups s) s") (simp add: powerupPhase_def)
qed


text \<open>The car of index \<open>i\<close> from the start of a tick to the start of its car loop.\<close>

lemma woken_frozen: "woken tp c c' \<Longrightarrow> 0 < frozenTimer c \<Longrightarrow> 0 < frozenTimer c'"
  by (auto simp: woken_def)



















lemma arrivingCar_tile: "carTile arrivingCar = (2, 29)" "\<not> atTileCentre arrivingCar"
proof -
  show t: "carTile arrivingCar = (2, 29)" by (simp add: carTile_def arrivingCar_def drivingCar_def)
  show "\<not> atTileCentre arrivingCar"
    unfolding atTileCentre_def t by (simp add: arrivingCar_def drivingCar_def)
qed




















text \<open>
  When the only valid options are against the heading of the car, line 1029 hands them
  to the choice: the decision at the centre takes one, and the car turns back.
\<close>

lemma only_reverse_valid_turns_back:
  assumes nodw: "findDriveway (mapGrid s) tx ty neighbors = Returns None \<or> 1 / 10 \<le> rnd (rngIndex s)"
    and vo: "validFlows (mapGrid s) tx ty (direction c) (getTrafficFlow tx ty (vRoads s) (hRoads s))
               = Returns [rv]"
    and rv: "fd rv = reverseDir (direction c)"
    and r: "0 \<le> rnd (rngIndex s + 1)" "rnd (rngIndex s + 1) < 1"
  shows "carTurn rnd s c tx ty x y
           = Returns (steer c (Some rv) x y, s\<lparr>rngIndex := rngIndex s + 2\<rparr>, False)
       \<and> direction (steer c (Some rv) x y) = reverseDir (direction c)"
proof -
  have ne: "reverseDir d \<noteq> d" for d by (cases d) (simp_all add: reverseDir_def)
  from rv ne[of "direction c"] have nd: "fd rv \<noteq> direction c" by simp
  have cand: "candidatesOf c [rv] = [rv]" using rv by (simp add: candidatesOf_def Let_def)
  from r have fl: "\<lfloor>rnd (Suc (rngIndex s))\<rfloor> = 0" by (simp add: floor_eq_iff)
  have ch: "chooseFlow rnd (Suc (rngIndex s)) c [rv] = (Some rv, Suc (Suc (rngIndex s)))"
    using nd fl by (simp add: chooseFlow_def Let_def)
  have turn: "carTurn rnd s c tx ty x y
           = Returns (steer c (Some rv) x y, s\<lparr>rngIndex := rngIndex s + 2\<rparr>, False)"
  proof (cases "rnd (rngIndex s) < 1 / 10")
    case True
    with nodw have "findDriveway (mapGrid s) tx ty neighbors = Returns None" by auto
    with True vo show ?thesis
      unfolding carTurn_def Let_def by (simp add: obind_def cand ch)
  next
    case False
    with vo show ?thesis
      unfolding carTurn_def Let_def by (simp add: obind_def cand ch)
  qed
  from nd rv have "direction (steer c (Some rv) x y) = reverseDir (direction c)"
    by (simp add: steer_def)
  with turn show ?thesis by simp
qed

text \<open>
  When the peel-off roll of line 976 succeeds and a driveway is beside the tile, the car
  leaves the road for the driveway, whatever the flow options of the tile are.
\<close>

lemma driveway_roll_peels_off:
  assumes "rnd (rngIndex s) < 1 / 10"
    and "findDriveway (mapGrid s) tx ty neighbors = Returns (Some n)"
  shows "carTurn rnd s c tx ty x y
           = Returns (peelOff c n x y, s\<lparr>rngIndex := rngIndex s + 1\<rparr>, True)"
  unfolding carTurn_def Let_def using assms by (simp add: obind_def)







end
